theory Spec2Isabelle
  imports Main
begin

text \<open>
  A saga orchestrator over a store without transactions: a coordinator that enqueues
  jobs, a worker that runs the steps of a job under a lock on its resources and
  compensates the completed steps when one fails, a lock service on a key-value service,
  a compensation service and a quarantine for failed jobs. The services are modelled as
  functions on an explicit state; what they throw is a value of a sum type.
\<close>

section \<open>Values shared by the services\<close>

text \<open>
  A JavaScript \<open>Error\<close> as the classification code reads it: its \<open>name\<close> and its
  \<open>message\<close>. What the services and the \<open>execute\<close> actions throw is taken to be such an
  object, as the signatures of the functions that receive it declare. Strings are lists
  of 8-bit characters; text outside ASCII is held as its UTF-8 bytes.
\<close>

record js_error =
  err_name :: string
  err_message :: string

text \<open>
  What a \<open>compensate\<close> action throws, or rejects with, is any JavaScript value. The
  \<open>catch\<close> that receives it reads \<open>error.message.toLowerCase()\<close> outside any guard, so
  two kinds of value are told apart: an \<open>Error\<close> object, and a value that has no string
  \<open>message\<close> (a string, a number, an object without that property), on which the read
  raises the \<open>TypeError\<close> of the engine. The text of that error is the one V8 gives for a
  property that is \<open>undefined\<close>. A thrown object that has a string \<open>message\<close> and no
  string \<open>name\<close> is not modelled.
\<close>

datatype thrown = ErrorObject js_error | NotAnError

definition type_error :: "string \<Rightarrow> js_error" where
  "type_error property =
     \<lparr>err_name = ''TypeError'',
      err_message = ''Cannot read properties of undefined (reading '' @ [CHR 0x27] @ property @ [CHR 0x27] @ '')''\<rparr>"

text \<open>A value a step may return or a job may hold: \<open>undefined\<close>, \<open>null\<close> or a payload.\<close>

datatype 'r jsval = JUndefined | JNull | JVal 'r

text \<open>
  \<open>ResourceIdentifier\<close>: the identifier is a string or a number (an integer here), the
  action is optional.
\<close>

datatype resource_id = IdString string | IdNumber int

record resource_identifier =
  res_type :: string
  res_id :: resource_id
  res_action :: "string option"

text \<open>The decimal rendering a template literal gives to an integer.\<close>

definition digit_char :: "nat \<Rightarrow> char" where
  "digit_char d = ''0123456789'' ! d"

fun show_nat :: "nat \<Rightarrow> string" where
  "show_nat n = (if n < 10 then [digit_char n] else show_nat (n div 10) @ [digit_char (n mod 10)])"

declare show_nat.simps [simp del]

definition show_int :: "int \<Rightarrow> string" where
  "show_int i = (if i < 0 then CHR ''-'' # show_nat (nat (- i)) else show_nat (nat i))"

fun render_id :: "resource_id \<Rightarrow> string" where
  "render_id (IdString s) = s"
| "render_id (IdNumber n) = show_int n"

section \<open>The key-value service, as the lock service uses it\<close>

text \<open>
  String keys hold a value and the time to live, in seconds, they were set with. The
  passing of time is not part of the model: no key expires. \<open>lock_faults\<close> is the
  outcome the service will give to the next commands of the lock service, in order
  (\<open>None\<close>: the command is carried out, \<open>Some e\<close>: the client throws \<open>e\<close>); once the list
  is used up every command is carried out. \<open>issued\<close> records the commands the lock
  service sent, oldest first.
\<close>

datatype redis_cmd =
  SET_EX_NX string string nat
| EVAL_RELEASE "string list" string

record redis =
  strings :: "string \<rightharpoonup> string \<times> nat"
  lock_faults :: "js_error option list"
  issued :: "redis_cmd list"

fun take_fault :: "js_error option list \<Rightarrow> js_error option \<times> js_error option list" where
  "take_fault [] = (None, [])"
| "take_fault (f # fs) = (f, fs)"

text \<open>\<open>redis.set(key, value, 'EX', ttl, 'NX')\<close>: truthy when the key was absent and is now set.\<close>

definition redis_set_ex_nx :: "string \<Rightarrow> string \<Rightarrow> nat \<Rightarrow> redis \<Rightarrow> (js_error + bool) \<times> redis" where
  "redis_set_ex_nx key v t r =
     (let (f, fs) = take_fault (lock_faults r);
          r1 = r\<lparr>lock_faults := fs, issued := issued r @ [SET_EX_NX key v t]\<rparr>
      in case f of
           Some e \<Rightarrow> (Inl e, r1)
         | None \<Rightarrow>
             (case strings r key of
                Some _ \<Rightarrow> (Inr False, r1)
              | None \<Rightarrow> (Inr True, r1\<lparr>strings := (strings r)(key \<mapsto> (v, t))\<rparr>)))"

text \<open>
  The Lua script of \<open>releaseLockInternal\<close>, run atomically by the service: it deletes
  each key whose current value is \<open>ARGV[1]\<close> and counts the deletions.
\<close>

fun release_script :: "string list \<Rightarrow> string \<Rightarrow> nat \<times> (string \<rightharpoonup> string \<times> nat) \<Rightarrow> nat \<times> (string \<rightharpoonup> string \<times> nat)" where
  "release_script [] argv1 (deletedCount, s) = (deletedCount, s)"
| "release_script (key # keys) argv1 (deletedCount, s) =
     (if map_option fst (s key) = Some argv1
      then release_script keys argv1 (deletedCount + 1, s(key := None))
      else release_script keys argv1 (deletedCount, s))"

definition redis_eval_release :: "string list \<Rightarrow> string \<Rightarrow> redis \<Rightarrow> (js_error + nat) \<times> redis" where
  "redis_eval_release keys argv1 r =
     (let (f, fs) = take_fault (lock_faults r);
          r1 = r\<lparr>lock_faults := fs, issued := issued r @ [EVAL_RELEASE keys argv1]\<rparr>
      in case f of
           Some e \<Rightarrow> (Inl e, r1)
         | None \<Rightarrow>
             (let (deletedCount, s) = release_script keys argv1 (0, strings r)
              in (Inr deletedCount, r1\<lparr>strings := s\<rparr>)))"

section \<open>DistributedLockService\<close>

definition LOCK_PREFIX :: string where
  "LOCK_PREFIX = ''tx_lock:''"

definition lock_key :: "resource_identifier \<Rightarrow> string" where
  "lock_key resource =
     (let action = (case res_action resource of
                      Some a \<Rightarrow> if a \<noteq> [] then ''_'' @ a else []
                    | None \<Rightarrow> [])
      in LOCK_PREFIX @ res_type resource @ ''_'' @ render_id (res_id resource) @ action)"

definition generateResourceLockKeys :: "resource_identifier list \<Rightarrow> string list" where
  "generateResourceLockKeys resourceIdentifiers = map lock_key resourceIdentifiers"

text \<open>
  \<open>releaseLockInternal\<close>: the owner-verified delete. A count smaller than the number of
  keys is only logged; an error of the service is logged and thrown again.
\<close>

definition releaseLockInternal :: "string list \<Rightarrow> string \<Rightarrow> redis \<Rightarrow> (js_error + unit) \<times> redis" where
  "releaseLockInternal lockKeys jobId r =
     (case redis_eval_release lockKeys jobId r of
        (Inl e, r1) \<Rightarrow> (Inl e, r1)
      | (Inr deletedCount, r1) \<Rightarrow> (Inr (), r1))"

definition releaseLock :: "resource_identifier list \<Rightarrow> string \<Rightarrow> redis \<Rightarrow> (js_error + unit) \<times> redis" where
  "releaseLock resourceIdentifiers jobId r =
     releaseLockInternal (generateResourceLockKeys resourceIdentifiers) jobId r"

text \<open>
  The body of the \<open>try\<close> of \<open>acquireLock\<close>: the loop over the lock keys and the final
  \<open>lockResults.every\<close>. It yields what the body returned or threw, the keys acquired so
  far and the service.
\<close>

fun acquire_loop :: "string list \<Rightarrow> string \<Rightarrow> nat \<Rightarrow> bool list \<times> string list \<Rightarrow> redis
    \<Rightarrow> (js_error + bool) \<times> string list \<times> redis" where
  "acquire_loop [] jobId t (lockResults, acquiredKeys) r =
     (Inr (list_all (\<lambda>result. result) lockResults), acquiredKeys, r)"
| "acquire_loop (lockKey # rest) jobId t (lockResults, acquiredKeys) r =
     (case redis_set_ex_nx lockKey jobId t r of
        (Inl e, r1) \<Rightarrow> (Inl e, acquiredKeys, r1)
      | (Inr acquired, r1) \<Rightarrow>
          if acquired
          then acquire_loop rest jobId t (lockResults @ [acquired], acquiredKeys @ [lockKey]) r1
          else (case releaseLockInternal acquiredKeys jobId r1 of
                  (Inl e, r2) \<Rightarrow> (Inl e, acquiredKeys, r2)
                | (Inr u, r2) \<Rightarrow> (Inr False, acquiredKeys, r2)))"

text \<open>\<open>acquireLock\<close>: the \<open>try\<close> body, and the \<open>catch\<close> that releases and throws again.\<close>

definition acquireLock :: "resource_identifier list \<Rightarrow> string \<Rightarrow> nat \<Rightarrow> redis \<Rightarrow> (js_error + bool) \<times> redis" where
  "acquireLock resourceIdentifiers jobId t r =
     (case acquire_loop (generateResourceLockKeys resourceIdentifiers) jobId t ([], []) r of
        (Inr b, acquiredKeys, r1) \<Rightarrow> (Inr b, r1)
      | (Inl error, acquiredKeys, r1) \<Rightarrow>
          (case releaseLockInternal acquiredKeys jobId r1 of
             (Inl e2, r2) \<Rightarrow> (Inl e2, r2)
           | (Inr u, r2) \<Rightarrow> (Inl error, r2)))"


section \<open>Step registry\<close>

text \<open>
  A step function acts on the business state \<open>'w\<close>, which the orchestrator never reads:
  \<open>execute\<close> returns a value or throws, \<open>compensate\<close>, when the step has one, takes the
  result of the step and may throw.
\<close>

record ('r, 'w) step_function =
  sf_name :: string
  sf_execute :: "'w \<Rightarrow> (js_error + 'r jsval) \<times> 'w"
  sf_compensate :: "('r jsval \<Rightarrow> 'w \<Rightarrow> thrown option \<times> 'w) option"

type_synonym ('r, 'w) step_registry = "string \<rightharpoonup> ('r, 'w) step_function"

definition register :: "string \<Rightarrow> ('w \<Rightarrow> (js_error + 'r jsval) \<times> 'w)
    \<Rightarrow> ('r jsval \<Rightarrow> 'w \<Rightarrow> thrown option \<times> 'w) option
    \<Rightarrow> ('r, 'w) step_registry \<Rightarrow> ('r, 'w) step_registry" where
  "register name exc cmp reg =
     reg(name \<mapsto> \<lparr>sf_name = name, sf_execute = exc, sf_compensate = cmp\<rparr>)"

section \<open>Jobs\<close>

datatype step_status = Pending | InProgress | Completed | Failed

record 'r job_step =
  step_name :: string
  step_status :: step_status
  step_index :: nat
  step_result :: "'r jsval"

text \<open>The payload of a job. The creation time is left out: the clock is not modelled.\<close>

record 'r job_data =
  userId :: int
  steps :: "'r job_step list"
  currentStepIndex :: nat
  idempotencyKey :: "string option"
  resourceIdentifiers :: "resource_identifier list option"

record 'r job =
  job_id :: string
  job_data :: "'r job_data"



section \<open>Substring classification of errors\<close>

text \<open>
  \<open>String.prototype.includes\<close> and \<open>toLowerCase\<close>. The case mapping is the one of the
  ASCII letters. The terms of the classification lists are ASCII, none of them contains
  \<open>k\<close> or ends in \<open>i\<close>, the only ASCII letters that the lower case of a character
  outside ASCII can bring in, so the mapping of the other characters does not change
  which terms a text contains.
\<close>

fun starts_with :: "string \<Rightarrow> string \<Rightarrow> bool" where
  "starts_with s [] = True"
| "starts_with [] (c # t) = False"
| "starts_with (d # s) (c # t) = (d = c \<and> starts_with s t)"

fun includes_str :: "string \<Rightarrow> string \<Rightarrow> bool" where
  "includes_str [] t = (t = [])"
| "includes_str (c # s) t = (starts_with (c # s) t \<or> includes_str s t)"

definition lower_char :: "char \<Rightarrow> char" where
  "lower_char c =
     (case map_of (zip ''ABCDEFGHIJKLMNOPQRSTUVWXYZ'' ''abcdefghijklmnopqrstuvwxyz'') c of
        Some l \<Rightarrow> l
      | None \<Rightarrow> c)"

definition toLowerCase :: "string \<Rightarrow> string" where
  "toLowerCase s = map lower_char s"

section \<open>CompensationService\<close>

text \<open>The compensation-failure record (the stack and the time of failure are left out).\<close>

record 'r compensation_failure =
  cf_jobId :: string
  cf_stepName :: string
  cf_stepResult :: "'r jsval"
  cf_errorMessage :: string
  cf_retryable :: bool

text \<open>An entry of the success trail.\<close>

record ('r, 'w) execution_result =
  er_step :: string
  er_result :: "'r jsval"
  er_stepFunction :: "('r, 'w) step_function"

text \<open>The calls made to step functions, oldest first.\<close>

datatype 'r call = ExecuteCall string | CompensateCall string "'r jsval"

text \<open>The quarantine record (the stack and the time of failure are left out).\<close>

datatype dlq_priority = High | Normal

record 'r dlq_data =
  originalJobId :: string
  originalJobData :: "'r job_data"
  failureReason :: string
  completedBenefits :: "string list"
  failedStep :: string
  customerUserId :: int
  manualActionRequired :: string
  canRetry :: bool
  priority :: dlq_priority
  stepCount :: nat
  failedStepIndex :: nat

text \<open>
  What a worker acts on: the key-value service with its compensation-failure hashes and
  its quarantine hashes and sets, the business state, the calls made to step functions,
  and the payloads written with \<open>job.updateData\<close>, oldest first. The commands on hashes
  and sets, and the operations of the queue, are taken to be carried out.
  \<open>dlq_counter\<close> stands for the clock and the random source that name a quarantine record.
\<close>

record ('r, 'w) system =
  redis :: redis
  cf_hashes :: "string \<rightharpoonup> 'r compensation_failure"
  cf_ttl :: "string \<rightharpoonup> nat"
  cf_index :: "string set"
  dlq_hashes :: "string \<rightharpoonup> 'r dlq_data"
  dlq_job_ids :: "string set"
  dlq_high_priority :: "string set"
  dlq_counter :: nat
  world :: 'w
  calls :: "'r call list"
  persisted :: "'r job_data list"

definition retryableCompensationErrors :: "string list" where
  "retryableCompensationErrors =
     [''ECONNREFUSED'', ''ETIMEDOUT'', ''Lock wait timeout'', ''Connection lost'',
      ''Server temporarily unavailable'', ''Redis connection failed'']"

definition nonRetryableCompensationErrors :: "string list" where
  "nonRetryableCompensationErrors =
     [''not found'', ''Invalid parameter'', ''Permission denied'', ''Constraint violation'']"

definition isRetryableCompensationError :: "js_error \<Rightarrow> bool" where
  "isRetryableCompensationError error =
     (let isNonRetryable =
            list_ex (\<lambda>nonRetryable. includes_str (toLowerCase (err_message error)) (toLowerCase nonRetryable))
              nonRetryableCompensationErrors
      in if isNonRetryable then False
         else list_ex (\<lambda>retryable. includes_str (err_message error) retryable \<or> includes_str (err_name error) retryable)
                retryableCompensationErrors)"

definition recordCompensationFailure ::
    "string \<Rightarrow> string \<Rightarrow> 'r jsval \<Rightarrow> js_error \<Rightarrow> bool \<Rightarrow> ('r, 'w) system \<Rightarrow> ('r, 'w) system" where
  "recordCompensationFailure jobId stepName stepResult error retryable s =
     (let key = ''compensation_failure:'' @ jobId @ '':'' @ stepName
      in s\<lparr>cf_hashes := (cf_hashes s)(key \<mapsto>
                \<lparr>cf_jobId = jobId, cf_stepName = stepName, cf_stepResult = stepResult,
                 cf_errorMessage = err_message error, cf_retryable = retryable\<rparr>),
            cf_index := insert key (cf_index s),
            cf_ttl := (cf_ttl s)(key \<mapsto> 7 * 24 * 60 * 60)\<rparr>)"

text \<open>
  \<open>executeCompensation\<close> returns the exception it ends with, if any, and the state it
  leaves. The only exception that leaves the loop is the \<open>TypeError\<close> that
  \<open>isRetryableCompensationError\<close> raises, inside the \<open>catch\<close>, on a thrown value without
  a string message.
\<close>

fun executeCompensation :: "('r, 'w) execution_result list \<Rightarrow> 'r job \<Rightarrow> ('r, 'w) system
    \<Rightarrow> js_error option \<times> ('r, 'w) system" where
  "executeCompensation [] job s = (None, s)"
| "executeCompensation (e # executionResults) job s =
     (case sf_compensate (er_stepFunction e) of
        None \<Rightarrow> executeCompensation executionResults job s
      | Some compensate \<Rightarrow>
          (let (thrown, w) = compensate (er_result e) (world s);
               s1 = s\<lparr>world := w, calls := calls s @ [CompensateCall (er_step e) (er_result e)]\<rparr>
           in case thrown of
                None \<Rightarrow> executeCompensation executionResults job s1
              | Some NotAnError \<Rightarrow> (Some (type_error ''toLowerCase''), s1)
              | Some (ErrorObject compensationError) \<Rightarrow>
                  executeCompensation executionResults job
                    (if isRetryableCompensationError compensationError
                     then recordCompensationFailure (job_id job) (er_step e) (er_result e) compensationError True s1
                     else recordCompensationFailure (job_id job) (er_step e) (er_result e) compensationError False s1)))"

section \<open>DLQService\<close>

definition dlq_id :: "nat \<Rightarrow> string" where
  "dlq_id n = ''dlq_'' @ show_nat n"

definition addToDLQ :: "'r dlq_data \<Rightarrow> ('r, 'w) system \<Rightarrow> string \<times> ('r, 'w) system" where
  "addToDLQ dlqJobData s =
     (let dlqId = dlq_id (dlq_counter s);
          s1 = s\<lparr>dlq_counter := dlq_counter s + 1,
                 dlq_hashes := (dlq_hashes s)(''dlq:'' @ dlqId \<mapsto> dlqJobData),
                 dlq_job_ids := insert dlqId (dlq_job_ids s)\<rparr>
      in (dlqId, if priority dlqJobData = High
                 then s1\<lparr>dlq_high_priority := insert dlqId (dlq_high_priority s1)\<rparr>
                 else s1))"


definition retryableErrors :: "string list" where
  "retryableErrors =
     [''ECONNREFUSED'', ''ETIMEDOUT'', ''Step function not found'', ''Redis connection failed'',
      ''Database temporarily unavailable'', ''External API timeout'']"

definition nonRetryableErrors :: "string list" where
  "nonRetryableErrors = [''Duplicate'', ''Insufficient'', ''already'', ''Invalid'', ''Permission denied'']"

section \<open>SimpleTransactionManager\<close>

definition default_resources :: "int \<Rightarrow> resource_identifier list" where
  "default_resources uid = [\<lparr>res_type = ''user'', res_id = IdNumber uid, res_action = None\<rparr>]"





definition new_job_data :: "int \<Rightarrow> ('r, 'w) step_function list \<Rightarrow> string option
    \<Rightarrow> resource_identifier list \<Rightarrow> 'r job_data" where
  "new_job_data uid stps idemKey finalResourceIdentifiers =
     \<lparr>userId = uid,
      steps = map (\<lambda>(index, x). \<lparr>step_name = sf_name x, step_status = Pending,
                                  step_index = index, step_result = JNull\<rparr>) (enumerate 0 stps),
      currentStepIndex = 0,
      idempotencyKey = idemKey,
      resourceIdentifiers = Some finalResourceIdentifiers\<rparr>"


section \<open>SimpleTransactionConsumer\<close>

text \<open>
  \<open>updateJobStepStatus\<close>. The worker calls it with \<open>stepIndex\<close> below the number of
  steps only. \<open>job.updateProgress\<close> is observational and is left out.
\<close>

definition updateJobStepStatus :: "'r job \<Rightarrow> nat \<Rightarrow> step_status \<Rightarrow> 'r jsval \<Rightarrow> ('r, 'w) system
    \<Rightarrow> 'r job \<times> ('r, 'w) system" where
  "updateJobStepStatus job stepIndex status result s =
     (let jobData = job_data job;
          step1 = (steps jobData ! stepIndex)\<lparr>step_status := status\<rparr>;
          step2 = (if result \<noteq> JUndefined then step1\<lparr>step_result := result\<rparr> else step1);
          jobData1 = jobData\<lparr>steps := (steps jobData)[stepIndex := step2]\<rparr>;
          jobData2 = (if status = InProgress \<or> status = Completed
                      then jobData1\<lparr>currentStepIndex := max (currentStepIndex jobData1) stepIndex\<rparr>
                      else jobData1);
          jobData3 = (if status = Completed \<and> int stepIndex < int (length (steps jobData2)) - 1
                      then jobData2\<lparr>currentStepIndex := stepIndex + 1\<rparr>
                      else jobData2)
      in (job\<lparr>job_data := jobData3\<rparr>, s\<lparr>persisted := persisted s @ [jobData3]\<rparr>))"

definition isDLQRetryable :: "js_error \<Rightarrow> bool" where
  "isDLQRetryable error =
     (let isNonRetryable =
            list_ex (\<lambda>nonRetryable. includes_str (toLowerCase (err_message error)) (toLowerCase nonRetryable))
              nonRetryableErrors
      in if isNonRetryable then False
         else list_ex (\<lambda>retryable. includes_str (err_message error) retryable \<or> includes_str (err_name error) retryable)
                retryableErrors)"

text \<open>The prefix of \<open>manualActionRequired\<close>, a Korean phrase, as its UTF-8 bytes.\<close>

definition manual_action_prefix :: string where
  "manual_action_prefix =
     [CHR 0x43, CHR 0x53, CHR 0xED, CHR 0x8C, CHR 0x80, CHR 0x20, CHR 0xEA, CHR 0xB2, CHR 0x80,
      CHR 0xED, CHR 0x86, CHR 0xA0, CHR 0x20, CHR 0xED, CHR 0x95, CHR 0x84, CHR 0xEC, CHR 0x9A,
      CHR 0x94, CHR 0x3A, CHR 0x20]"

definition build_dlq_data :: "'r job \<Rightarrow> js_error \<Rightarrow> 'r dlq_data" where
  "build_dlq_data job finalError =
     (let d = job_data job
      in \<lparr>originalJobId = job_id job,
          originalJobData = d,
          failureReason = err_message finalError,
          completedBenefits =
            map (\<lambda>(index, step). step_name step)
              (filter (\<lambda>(index, step). index < currentStepIndex d \<and> step_status step = Completed)
                 (enumerate 0 (steps d))),
          failedStep =
            (if currentStepIndex d < length (steps d) \<and> step_name (steps d ! currentStepIndex d) \<noteq> []
             then step_name (steps d ! currentStepIndex d) else ''Unknown''),
          customerUserId = userId d,
          manualActionRequired = manual_action_prefix @ err_message finalError,
          canRetry = isDLQRetryable finalError,
          priority = (if isDLQRetryable finalError then High else Normal),
          stepCount = length (steps d),
          failedStepIndex = currentStepIndex d\<rparr>)"

definition handleDeadLetterQueue :: "'r job \<Rightarrow> js_error \<Rightarrow> ('r, 'w) system \<Rightarrow> ('r, 'w) system" where
  "handleDeadLetterQueue job finalError s = snd (addToDLQ (build_dlq_data job finalError) s)"

text \<open>
  The error thrown when the lock is not acquired. Its message is Korean text around the
  resource names: the UTF-8 bytes of the two parts are written out.
\<close>

fun join_str :: "string \<Rightarrow> string list \<Rightarrow> string" where
  "join_str sep [] = []"
| "join_str sep [x] = x"
| "join_str sep (x # y # xs) = x @ sep @ join_str sep (y # xs)"

definition busy_message_head :: string where
  "busy_message_head =
     [CHR 0xEB, CHR 0xA6, CHR 0xAC, CHR 0xEC, CHR 0x86, CHR 0x8C, CHR 0xEC, CHR 0x8A, CHR 0xA4, CHR 0x28]"

definition busy_message_tail :: string where
  "busy_message_tail =
     [CHR 0x29, CHR 0xEC, CHR 0x97, CHR 0x90, CHR 0x20, CHR 0xEB, CHR 0x8C, CHR 0x80, CHR 0xED,
      CHR 0x95, CHR 0x9C, CHR 0x20, CHR 0xEB, CHR 0x8B, CHR 0xA4, CHR 0xEB, CHR 0xA5, CHR 0xB8,
      CHR 0x20, CHR 0xED, CHR 0x8A, CHR 0xB8, CHR 0xEB, CHR 0x9E, CHR 0x9C, CHR 0xEC, CHR 0x9E,
      CHR 0xAD, CHR 0xEC, CHR 0x85, CHR 0x98, CHR 0xEC, CHR 0x9D, CHR 0xB4, CHR 0x20, CHR 0xEC,
      CHR 0xA7, CHR 0x84, CHR 0xED, CHR 0x96, CHR 0x89, CHR 0x20, CHR 0xEC, CHR 0xA4, CHR 0x91,
      CHR 0xEC, CHR 0x9E, CHR 0x85, CHR 0xEB, CHR 0x8B, CHR 0x88, CHR 0xEB, CHR 0x8B, CHR 0xA4]"

definition resource_busy_error :: "resource_identifier list \<Rightarrow> js_error" where
  "resource_busy_error finalResourceIdentifiers =
     (let resourceNames = join_str '', '' (map (\<lambda>r. res_type r @ '':'' @ render_id (res_id r)) finalResourceIdentifiers)
      in \<lparr>err_name = ''Error'', err_message = busy_message_head @ resourceNames @ busy_message_tail\<rparr>)"

definition step_not_found_error :: "string \<Rightarrow> js_error" where
  "step_not_found_error name = \<lparr>err_name = ''Error'', err_message = ''Step function not found: '' @ name\<rparr>"

text \<open>Reading \<open>status\<close> of a step that the list does not have.\<close>

definition undefined_step_error :: js_error where
  "undefined_step_error =
     \<lparr>err_name = ''TypeError'', err_message = ''Cannot read properties of undefined (reading 'status')''\<rparr>"

text \<open>The first loop of \<open>process\<close>: the success trail of the steps persisted as completed.\<close>

fun rebuild_trail :: "('r, 'w) step_registry \<Rightarrow> 'r job_step list \<Rightarrow> nat list
    \<Rightarrow> ('r, 'w) execution_result list \<Rightarrow> js_error + ('r, 'w) execution_result list" where
  "rebuild_trail reg stps [] executionResults = Inr executionResults"
| "rebuild_trail reg stps (i # is) executionResults =
     (if i < length stps
      then (let step = stps ! i
            in if step_status step = Completed
               then (case reg (step_name step) of
                       Some stepFunction \<Rightarrow>
                         rebuild_trail reg stps is
                           (executionResults @ [\<lparr>er_step = step_name step, er_result = step_result step,
                                                 er_stepFunction = stepFunction\<rparr>])
                     | None \<Rightarrow> rebuild_trail reg stps is executionResults)
               else rebuild_trail reg stps is executionResults)
      else Inl undefined_step_error)"

text \<open>
  The \<open>catch\<close> around a step: persist the failure, compensate the reversed trail, throw
  again. When the compensation ends with an exception, that one is thrown instead.
\<close>

definition step_failed :: "'r job \<Rightarrow> nat \<Rightarrow> ('r, 'w) execution_result list \<Rightarrow> js_error \<Rightarrow> ('r, 'w) system
    \<Rightarrow> (js_error + ('r, 'w) execution_result list) \<times> 'r job \<times> ('r, 'w) system" where
  "step_failed job i executionResults stepError s =
     (let (job1, s1) = updateJobStepStatus job i Failed JUndefined s;
          (raised, s2) = executeCompensation (rev executionResults) job1 s1
      in (case raised of
            Some compensationError \<Rightarrow> (Inl compensationError, job1, s2)
          | None \<Rightarrow> (Inl stepError, job1, s2)))"

lemma length_steps_updateJobStepStatus:
  "(job1, s1) = updateJobStepStatus job i st res s \<Longrightarrow>
     length (steps (job_data job1)) = length (steps (job_data job))"
  by (simp add: updateJobStepStatus_def Let_def)

text \<open>The second loop of \<open>process\<close>, from step \<open>i\<close> on.\<close>

function run_steps :: "('r, 'w) step_registry \<Rightarrow> nat \<Rightarrow> 'r job \<Rightarrow> ('r, 'w) execution_result list
    \<Rightarrow> ('r, 'w) system \<Rightarrow> (js_error + ('r, 'w) execution_result list) \<times> 'r job \<times> ('r, 'w) system" where
  "run_steps reg i job executionResults s =
     (if i < length (steps (job_data job))
      then (let step = steps (job_data job) ! i;
                (job1, s1) = updateJobStepStatus job i InProgress JUndefined s
            in case reg (step_name step) of
                 None \<Rightarrow> step_failed job1 i executionResults (step_not_found_error (step_name step)) s1
               | Some stepFunction \<Rightarrow>
                   (let (outcome, w) = sf_execute stepFunction (world s1);
                        s2 = s1\<lparr>world := w, calls := calls s1 @ [ExecuteCall (step_name step)]\<rparr>
                    in case outcome of
                         Inl stepError \<Rightarrow> step_failed job1 i executionResults stepError s2
                       | Inr result \<Rightarrow>
                           (let (job3, s3) = updateJobStepStatus job1 i Completed result s2
                            in run_steps reg (i + 1) job3
                                 (executionResults @ [\<lparr>er_step = step_name step, er_result = result,
                                                       er_stepFunction = stepFunction\<rparr>]) s3)))
      else (Inr executionResults, job, s))"
  by pat_completeness auto
termination
  by (relation "measure (\<lambda>(reg, i, job, executionResults, s). length (steps (job_data job)) - i)")
     (auto dest!: length_steps_updateJobStepStatus)

declare run_steps.simps [simp del]

text \<open>What \<open>process\<close> returns on success (the duration is left out).\<close>

record ('r, 'w) process_result =
  pr_success :: bool
  pr_executedSteps :: nat
  pr_results :: "('r, 'w) execution_result list"

text \<open>The part of \<open>process\<close> that runs with the lock held: from the trail to the result.\<close>

definition process_body :: "('r, 'w) step_registry \<Rightarrow> 'r job \<Rightarrow> ('r, 'w) system
    \<Rightarrow> (js_error + ('r, 'w) process_result) \<times> 'r job \<times> ('r, 'w) system" where
  "process_body reg job s =
     (case rebuild_trail reg (steps (job_data job)) [0 ..< currentStepIndex (job_data job)] [] of
        Inl error \<Rightarrow> (Inl error, job, s)
      | Inr executionResults \<Rightarrow>
          (case run_steps reg (currentStepIndex (job_data job)) job executionResults s of
             (Inl error, job1, s1) \<Rightarrow> (Inl error, job1, s1)
           | (Inr results, job1, s1) \<Rightarrow>
               (Inr \<lparr>pr_success = True, pr_executedSteps = length (steps (job_data job1)),
                     pr_results = results\<rparr>, job1, s1)))"

text \<open>
  \<open>process\<close>: the lock, the body, the quarantine of a failure in the outer \<open>catch\<close>, and
  the release in \<open>finally\<close> when the lock was acquired. The manager passes its default
  time to live, 30 seconds, to the lock service.
\<close>

definition final_resource_identifiers :: "'r job_data \<Rightarrow> resource_identifier list" where
  "final_resource_identifiers d =
     (case resourceIdentifiers d of
        Some rs \<Rightarrow> rs
      | None \<Rightarrow> default_resources (userId d))"

definition process :: "('r, 'w) step_registry \<Rightarrow> 'r job \<Rightarrow> ('r, 'w) system
    \<Rightarrow> (js_error + ('r, 'w) process_result) \<times> 'r job \<times> ('r, 'w) system" where
  "process reg job s =
     (let finalResourceIdentifiers = final_resource_identifiers (job_data job);
          (locked, r1) = acquireLock finalResourceIdentifiers (job_id job) 30 (redis s);
          s1 = s\<lparr>redis := r1\<rparr>
      in case locked of
           Inl error \<Rightarrow> (Inl error, job, handleDeadLetterQueue job error s1)
         | Inr lockAcquired \<Rightarrow>
             if \<not> lockAcquired
             then (Inl (resource_busy_error finalResourceIdentifiers), job,
                   handleDeadLetterQueue job (resource_busy_error finalResourceIdentifiers) s1)
             else (let (outcome, job2, s2) = process_body reg job s1;
                       s3 = (case outcome of
                               Inl error \<Rightarrow> handleDeadLetterQueue job2 error s2
                             | Inr result \<Rightarrow> s2);
                       (released, r4) = releaseLock finalResourceIdentifiers (job_id job) (redis s3)
                   in (case released of Inl e \<Rightarrow> Inl e | Inr u \<Rightarrow> outcome, job2, s3\<lparr>redis := r4\<rparr>)))"


section \<open>Workers that run at the same time\<close>

text \<open>
  \<open>process\<close> cut at the commands of the lock service, each of which the key-value
  service carries out atomically; between two of them another worker may run. A worker
  is in its acquisition loop (the keys still to set, the keys acquired), about to release
  after a key was found present, about to release in the \<open>catch\<close> after a command threw,
  holding its lock with the body of \<open>process\<close> still to run, about to release in the
  \<open>finally\<close> with the outcome of the body and the job as the body left it, or done with
  what \<open>process\<close> returned or threw. The body of \<open>process\<close> sends no lock command; the
  release uses the resource list and the job id read at the start of \<open>process\<close>.
\<close>

datatype ('r, 'w) phase =
    Acquiring "string list" "string list"
  | RollingBack "string list"
  | Catching "string list" js_error
  | Holding
  | Releasing "js_error + ('r, 'w) process_result" "'r job"
  | Done "js_error + ('r, 'w) process_result"

record ('r, 'w) worker =
  wk_job :: "'r job"
  wk_phase :: "('r, 'w) phase"

definition start_worker :: "'r job \<Rightarrow> ('r, 'w) worker" where
  "start_worker job =
     \<lparr>wk_job = job,
      wk_phase = Acquiring (generateResourceLockKeys (final_resource_identifiers (job_data job))) []\<rparr>"

definition worker_step :: "('r, 'w) step_registry \<Rightarrow> ('r, 'w) worker \<Rightarrow> ('r, 'w) system
    \<Rightarrow> ('r, 'w) worker \<times> ('r, 'w) system" where
  "worker_step reg w s =
     (let job = wk_job w;
          finalResourceIdentifiers = final_resource_identifiers (job_data job)
      in case wk_phase w of
           Acquiring [] acquiredKeys \<Rightarrow> (w\<lparr>wk_phase := Holding\<rparr>, s)
         | Acquiring (lockKey # rest) acquiredKeys \<Rightarrow>
             (case redis_set_ex_nx lockKey (job_id job) 30 (redis s) of
                (Inl e, r1) \<Rightarrow> (w\<lparr>wk_phase := Catching acquiredKeys e\<rparr>, s\<lparr>redis := r1\<rparr>)
              | (Inr acquired, r1) \<Rightarrow>
                  if acquired
                  then (w\<lparr>wk_phase := Acquiring rest (acquiredKeys @ [lockKey])\<rparr>, s\<lparr>redis := r1\<rparr>)
                  else (w\<lparr>wk_phase := RollingBack acquiredKeys\<rparr>, s\<lparr>redis := r1\<rparr>))
         | RollingBack acquiredKeys \<Rightarrow>
             (case releaseLockInternal acquiredKeys (job_id job) (redis s) of
                (Inl e, r1) \<Rightarrow> (w\<lparr>wk_phase := Catching acquiredKeys e\<rparr>, s\<lparr>redis := r1\<rparr>)
              | (Inr u, r1) \<Rightarrow>
                  (w\<lparr>wk_phase := Done (Inl (resource_busy_error finalResourceIdentifiers))\<rparr>,
                   handleDeadLetterQueue job (resource_busy_error finalResourceIdentifiers) (s\<lparr>redis := r1\<rparr>)))
         | Catching acquiredKeys error \<Rightarrow>
             (case releaseLockInternal acquiredKeys (job_id job) (redis s) of
                (Inl e2, r1) \<Rightarrow> (w\<lparr>wk_phase := Done (Inl e2)\<rparr>, handleDeadLetterQueue job e2 (s\<lparr>redis := r1\<rparr>))
              | (Inr u, r1) \<Rightarrow> (w\<lparr>wk_phase := Done (Inl error)\<rparr>, handleDeadLetterQueue job error (s\<lparr>redis := r1\<rparr>)))
         | Holding \<Rightarrow>
             (let (outcome, job2, s2) = process_body reg job s;
                  s3 = (case outcome of
                          Inl error \<Rightarrow> handleDeadLetterQueue job2 error s2
                        | Inr result \<Rightarrow> s2)
              in (w\<lparr>wk_phase := Releasing outcome job2\<rparr>, s3))
         | Releasing outcome job2 \<Rightarrow>
             (let (released, r4) = releaseLock finalResourceIdentifiers (job_id job) (redis s)
              in (\<lparr>wk_job = job2, wk_phase = Done (case released of Inl e \<Rightarrow> Inl e | Inr u \<Rightarrow> outcome)\<rparr>,
                  s\<lparr>redis := r4\<rparr>))
         | Done outcome \<Rightarrow> (w, s))"

text \<open>Two workers and a schedule that says whose step comes next.\<close>

datatype turn = First | Second

fun run_schedule :: "('r, 'w) step_registry \<Rightarrow> turn list
    \<Rightarrow> ('r, 'w) worker \<times> ('r, 'w) worker \<times> ('r, 'w) system
    \<Rightarrow> ('r, 'w) worker \<times> ('r, 'w) worker \<times> ('r, 'w) system" where
  "run_schedule reg [] c = c"
| "run_schedule reg (First # sch) (wa, wb, s) =
     (case worker_step reg wa s of (wa1, s1) \<Rightarrow> run_schedule reg sch (wa1, wb, s1))"
| "run_schedule reg (Second # sch) (wa, wb, s) =
     (case worker_step reg wb s of (wb1, s1) \<Rightarrow> run_schedule reg sch (wa, wb1, s1))"

section \<open>Calls of the coordinator that run at the same time\<close>







section \<open>Notions used to state the properties\<close>

text \<open>
  The compensation calls a trail gives rise to: one for each entry whose step function
  has a compensate action, with the entry's name and result, in the order of the list.
\<close>

definition compensate_calls :: "('r, 'w) execution_result list \<Rightarrow> 'r call list" where
  "compensate_calls tr =
     map (\<lambda>e. CompensateCall (er_step e) (er_result e))
       (filter (\<lambda>e. sf_compensate (er_stepFunction e) \<noteq> None) tr)"

text \<open>
  The trail entries that executing the named steps in order gives, from a business state
  on: each step's name, the value its execute action returned, and its step function, up
  to the first step that is not registered or whose execute action throws.
\<close>

fun execute_results :: "('r, 'w) step_registry \<Rightarrow> string list \<Rightarrow> 'w \<Rightarrow> ('r, 'w) execution_result list" where
  "execute_results reg [] w = []"
| "execute_results reg (name # names) w =
     (case reg name of
        None \<Rightarrow> []
      | Some stepFunction \<Rightarrow>
          (case sf_execute stepFunction w of
             (Inl stepError, w1) \<Rightarrow> []
           | (Inr result, w1) \<Rightarrow>
               \<lparr>er_step = name, er_result = result, er_stepFunction = stepFunction\<rparr>
                 # execute_results reg names w1))"

text \<open>
  A step function whose compensate action, if it has one, throws \<open>Error\<close> objects only.
\<close>

definition throws_errors_only :: "('r, 'w) step_function \<Rightarrow> bool" where
  "throws_errors_only sf =
     (\<forall>compensate result w. sf_compensate sf = Some compensate
        \<longrightarrow> fst (compensate result w) \<noteq> Some NotAnError)"

text \<open>The compensate actions of the steps of a job, as registered, throw \<open>Error\<close> objects only.\<close>

definition compensations_throw_errors :: "('r, 'w) step_registry \<Rightarrow> 'r job \<Rightarrow> bool" where
  "compensations_throw_errors reg job =
     (\<forall>x \<in> set (steps (job_data job)). \<forall>sf. reg (step_name x) = Some sf \<longrightarrow> throws_errors_only sf)"

text \<open>
  The index of the first step that is not completed (the number of steps when all are),
  and the index of the first pending step (the number of steps when none is), which is
  how the specification words the position of \<open>currentStepIndex\<close>.
\<close>

definition first_not_completed :: "'r job_step list \<Rightarrow> nat" where
  "first_not_completed stps = length (takeWhile (\<lambda>x. step_status x = Completed) stps)"

definition first_pending_or_length :: "'r job_step list \<Rightarrow> nat" where
  "first_pending_or_length stps = length (takeWhile (\<lambda>x. step_status x \<noteq> Pending) stps)"

text \<open>
  A persisted payload whose \<open>currentStepIndex\<close> is the first step not completed, or the
  last step when all are completed.
\<close>

definition index_settled :: "'r job_data \<Rightarrow> bool" where
  "index_settled d = (currentStepIndex d = min (first_not_completed (steps d)) (length (steps d) - 1))"

text \<open>
  A payload as the coordinator creates it and the worker leaves it: the steps before
  \<open>currentStepIndex\<close> are completed, the steps after it are pending.
\<close>

definition resumable :: "'r job_data \<Rightarrow> bool" where
  "resumable d =
     ((\<forall>k < length (steps d). k < currentStepIndex d \<longrightarrow> step_status (steps d ! k) = Completed)
    \<and> (\<forall>k < length (steps d). currentStepIndex d < k \<longrightarrow> step_status (steps d ! k) = Pending))"

text \<open>
  The lock keys of a job; a job's keys being set to its id with the worker's time to live;
  a worker that is between its acquisition and its release; a worker that has ended with
  a successful result.
\<close>

definition job_lock_keys :: "'r job \<Rightarrow> string list" where
  "job_lock_keys job = generateResourceLockKeys (final_resource_identifiers (job_data job))"

definition holds_keys :: "string \<Rightarrow> string list \<Rightarrow> ('r, 'w) system \<Rightarrow> bool" where
  "holds_keys jobId ks s = (\<forall>k \<in> set ks. strings (redis s) k = Some (jobId, 30))"

definition has_lock :: "('r, 'w) worker \<Rightarrow> bool" where
  "has_lock w = (case wk_phase w of Holding \<Rightarrow> True | Releasing outcome job2 \<Rightarrow> True | _ \<Rightarrow> False)"

definition succeeded :: "('r, 'w) worker \<Rightarrow> bool" where
  "succeeded w = (case wk_phase w of Done (Inr result) \<Rightarrow> pr_success result | _ \<Rightarrow> False)"

text \<open>
  What stays true of a worker scheduled among others: while it has not ended it works on
  its job, the keys it has acquired are set to its job id, and from the end of its
  acquisition to its release these are all its keys.
\<close>

definition worker_inv :: "'r job \<Rightarrow> ('r, 'w) worker \<Rightarrow> ('r, 'w) system \<Rightarrow> bool" where
  "worker_inv job0 w s =
     (case wk_phase w of
        Acquiring rest acq \<Rightarrow>
          wk_job w = job0 \<and> acq @ rest = job_lock_keys job0 \<and> holds_keys (job_id job0) acq s
      | RollingBack acq \<Rightarrow> wk_job w = job0
      | Catching acq e \<Rightarrow> wk_job w = job0
      | Holding \<Rightarrow> wk_job w = job0 \<and> holds_keys (job_id job0) (job_lock_keys job0) s
      | Releasing outcome job2 \<Rightarrow> wk_job w = job0 \<and> holds_keys (job_id job0) (job_lock_keys job0) s
      | Done outcome \<Rightarrow> True)"


section \<open>Example data\<close>

text \<open>
  Two resources, two errors of the key-value service, an empty service; steps \<open>A\<close> and
  \<open>B\<close> that succeed (the compensation of \<open>B\<close> throws a connection error), \<open>C\<close> that
  throws, \<open>N\<close> without compensation, \<open>E\<close> whose compensation throws an error that
  matches a terminal and a retryable term, \<open>S\<close> whose compensation rejects with a value
  that is not an error, a step that is not registered; a registry, jobs
  for user 7, one of them resumed after its first step; two jobs that share the resource
  of user 2, a schedule for their workers, and a service in which the first holds its keys.
\<close>

definition user_res :: "int \<Rightarrow> resource_identifier" where
  "user_res n = \<lparr>res_type = ''user'', res_id = IdNumber n, res_action = None\<rparr>"

definition err_conn :: js_error where
  "err_conn = \<lparr>err_name = ''Error'', err_message = ''Connection lost''\<rparr>"

definition err_script :: js_error where
  "err_script = \<lparr>err_name = ''ReplyError'', err_message = ''script failed''\<rparr>"

definition err_x :: js_error where
  "err_x = \<lparr>err_name = ''Error'', err_message = ''X''\<rparr>"

definition err_both :: js_error where
  "err_both = \<lparr>err_name = ''Error'', err_message = ''Connection lost: record NOT FOUND''\<rparr>"

definition redis_empty :: redis where
  "redis_empty = \<lparr>strings = Map.empty, lock_faults = [], issued = []\<rparr>"

definition ex_locked :: redis where
  "ex_locked = redis_empty\<lparr>strings := [''tx_lock:user_7'' \<mapsto> (''1'', 30)],
                              issued := [SET_EX_NX ''tx_lock:user_7'' ''1'' 30]\<rparr>"

definition step_a :: "(string, string list) step_function" where
  "step_a = \<lparr>sf_name = ''A'',
             sf_execute = (\<lambda>w. (Inr (JVal ''a-result''), w @ [''A+''])),
             sf_compensate = Some (\<lambda>r w. (None, w @ [''A-'']))\<rparr>"

definition step_b :: "(string, string list) step_function" where
  "step_b = \<lparr>sf_name = ''B'',
             sf_execute = (\<lambda>w. (Inr (JVal ''b-result''), w @ [''B+''])),
             sf_compensate = Some (\<lambda>r w. (Some (ErrorObject \<lparr>err_name = ''Error'', err_message = ''connect ECONNREFUSED''\<rparr>), w))\<rparr>"

definition step_c :: "(string, string list) step_function" where
  "step_c = \<lparr>sf_name = ''C'',
             sf_execute = (\<lambda>w. (Inl \<lparr>err_name = ''Error'', err_message = ''X''\<rparr>, w @ [''C+attempt''])),
             sf_compensate = Some (\<lambda>r w. (None, w @ [''C-'']))\<rparr>"

definition step_n :: "(string, string list) step_function" where
  "step_n = \<lparr>sf_name = ''N'',
             sf_execute = (\<lambda>w. (Inr JUndefined, w @ [''N+''])),
             sf_compensate = None\<rparr>"

definition step_e :: "(string, string list) step_function" where
  "step_e = \<lparr>sf_name = ''E'',
             sf_execute = (\<lambda>w. (Inr JNull, w)),
             sf_compensate = Some (\<lambda>r w. (Some (ErrorObject err_both), w))\<rparr>"

definition step_s :: "(string, string list) step_function" where
  "step_s = \<lparr>sf_name = ''S'',
             sf_execute = (\<lambda>w. (Inr (JVal ''s-result''), w @ [''S+''])),
             sf_compensate = Some (\<lambda>r w. (Some NotAnError, w))\<rparr>"

definition step_dup :: "(string, string list) step_function" where
  "step_dup = \<lparr>sf_name = ''remove_duplicates'',
               sf_execute = (\<lambda>w. (Inr JNull, w)),
               sf_compensate = None\<rparr>"

definition ex_registry :: "(string, string list) step_registry" where
  "ex_registry = [''A'' \<mapsto> step_a, ''B'' \<mapsto> step_b, ''C'' \<mapsto> step_c, ''N'' \<mapsto> step_n, ''S'' \<mapsto> step_s]"

definition ex_system :: "(string, string list) system" where
  "ex_system = \<lparr>redis = redis_empty, cf_hashes = Map.empty, cf_ttl = Map.empty, cf_index = {},
                dlq_hashes = Map.empty, dlq_job_ids = {}, dlq_high_priority = {}, dlq_counter = 0,
                world = [], calls = [], persisted = []\<rparr>"

definition ex_job :: "(string, string list) step_function list \<Rightarrow> string job" where
  "ex_job stps = \<lparr>job_id = ''1'', job_data = new_job_data 7 stps None [user_res 7]\<rparr>"

definition ex_resumed_job :: "string job" where
  "ex_resumed_job =
     \<lparr>job_id = ''1'',
      job_data = \<lparr>userId = 7,
                  steps = [\<lparr>step_name = ''A'', step_status = Completed, step_index = 0, step_result = JVal ''a-result''\<rparr>,
                           \<lparr>step_name = ''B'', step_status = Pending, step_index = 1, step_result = JNull\<rparr>,
                           \<lparr>step_name = ''C'', step_status = Pending, step_index = 2, step_result = JNull\<rparr>],
                  currentStepIndex = 1,
                  idempotencyKey = None,
                  resourceIdentifiers = Some [user_res 7]\<rparr>\<rparr>"


definition ex_job_a :: "string job" where
  "ex_job_a = \<lparr>job_id = ''1'', job_data = new_job_data 1 [step_a] None [user_res 1, user_res 2]\<rparr>"

definition ex_job_b :: "string job" where
  "ex_job_b = \<lparr>job_id = ''2'', job_data = new_job_data 2 [step_a] None [user_res 2]\<rparr>"

definition ex_schedule :: "turn list" where
  "ex_schedule = [First, Second, Second, Second, Second, First, First, First, First]"

definition ex_held :: "(string, string list) system" where
  "ex_held = ex_system\<lparr>redis := redis_empty\<lparr>strings := [''tx_lock:user_1'' \<mapsto> (''1'', 30),
                                                      ''tx_lock:user_2'' \<mapsto> (''1'', 30)]\<rparr>\<rparr>"


section \<open>Evaluation of the examples\<close>

lemma show_nat_digit: "n < 10 \<Longrightarrow> show_nat n = [digit_char n]"
  by (simp add: show_nat.simps)


lemma lock_key_user_1: "lock_key (user_res 1) = ''tx_lock:user_1''"
  by (simp add: lock_key_def user_res_def LOCK_PREFIX_def show_int_def show_nat_digit digit_char_def)

lemma lock_key_user_2: "lock_key (user_res 2) = ''tx_lock:user_2''"
  by (simp add: lock_key_def user_res_def LOCK_PREFIX_def show_int_def show_nat_digit digit_char_def)

lemma lock_key_user_7: "lock_key (user_res 7) = ''tx_lock:user_7''"
  by (simp add: lock_key_def user_res_def LOCK_PREFIX_def show_int_def show_nat_digit digit_char_def)

lemma dlq_id_0: "dlq_id 0 = ''dlq_0''"
  by (simp add: dlq_id_def show_nat_digit digit_char_def)

lemmas lock_eval = acquireLock_def generateResourceLockKeys_def lock_key_user_1 lock_key_user_2 redis_empty_def
  redis_set_ex_nx_def releaseLockInternal_def redis_eval_release_def releaseLock_def Let_def

lemmas ex_defs = ex_registry_def ex_job_def ex_system_def step_a_def step_b_def step_c_def step_n_def
  new_job_data_def

lemmas body_eval = run_steps.simps updateJobStepStatus_def step_failed_def Let_def enumerate_eq_zip
  recordCompensationFailure_def process_body_def ex_defs


section \<open>The lock service\<close>

lemma release_script_store:
  "snd (release_script ks j (n, s)) = (\<lambda>k. if k \<in> set ks \<and> map_option fst (s k) = Some j then None else s k)"
proof (induction ks arbitrary: n s)
  case Nil
  show ?case by simp
next
  case (Cons k ks)
  show ?case by (auto simp: Cons.IH fun_eq_iff)
qed

lemma take_fault_Nil: "take_fault [] = (None, [])" by simp

lemma set_nx_nofault:
  "lock_faults r = [] \<Longrightarrow> redis_set_ex_nx k j t r =
     (case strings r k of Some x \<Rightarrow> (Inr False, r\<lparr>lock_faults := [], issued := issued r @ [SET_EX_NX k j t]\<rparr>)
      | None \<Rightarrow> (Inr True, r\<lparr>lock_faults := [], issued := issued r @ [SET_EX_NX k j t], strings := (strings r)(k \<mapsto> (j, t))\<rparr>))"
  by (simp add: redis_set_ex_nx_def Let_def split: option.splits)

lemma release_internal_nofault:
  "lock_faults r = [] \<Longrightarrow> releaseLockInternal ks j r =
     (Inr (), r\<lparr>lock_faults := [], issued := issued r @ [EVAL_RELEASE ks j],
                 strings := snd (release_script ks j (0, strings r))\<rparr>)"
  by (simp add: releaseLockInternal_def redis_eval_release_def Let_def split: prod.splits)

lemma set_nx_Inl:
  "redis_set_ex_nx k j t r = (Inl e, r1) \<Longrightarrow>
     strings r1 = strings r \<and> issued r1 = issued r @ [SET_EX_NX k j t]"
  by (auto simp: redis_set_ex_nx_def Let_def split: prod.splits option.splits)

lemma set_nx_False:
  "redis_set_ex_nx k j t r = (Inr False, r1) \<Longrightarrow>
     strings r1 = strings r \<and> strings r k \<noteq> None \<and> issued r1 = issued r @ [SET_EX_NX k j t]"
  by (auto simp: redis_set_ex_nx_def Let_def split: prod.splits option.splits)

lemma set_nx_True:
  "redis_set_ex_nx k j t r = (Inr True, r1) \<Longrightarrow>
     strings r1 = (strings r)(k \<mapsto> (j, t)) \<and> strings r k = None \<and> issued r1 = issued r @ [SET_EX_NX k j t]"
  by (auto simp: redis_set_ex_nx_def Let_def split: prod.splits option.splits)

lemma release_internal_Inl:
  "releaseLockInternal ks j r = (Inl e, r1) \<Longrightarrow>
     strings r1 = strings r \<and> issued r1 = issued r @ [EVAL_RELEASE ks j]"
  by (auto simp: releaseLockInternal_def redis_eval_release_def Let_def split: prod.splits option.splits sum.splits)

lemma release_internal_Inr:
  "releaseLockInternal ks j r = (Inr u, r1) \<Longrightarrow>
     strings r1 = snd (release_script ks j (0, strings r)) \<and> issued r1 = issued r @ [EVAL_RELEASE ks j]"
  by (auto simp: releaseLockInternal_def redis_eval_release_def Let_def split: prod.splits option.splits sum.splits)

text \<open>
What the loop of \<open>acquireLock\<close> leaves, whatever the service answers.
\<close>

lemma acquire_loop_shape:
  "acquire_loop ks j t (lr, acq) r = (res, acq', r') \<Longrightarrow>
   \<exists>n \<le> length ks. acq' = acq @ take n ks \<and> distinct (take n ks)
      \<and> (\<forall>k \<in> set (take n ks). strings r k = None)
      \<and> (res = Inr True \<longrightarrow> n = length ks \<and> strings r' = (\<lambda>k. if k \<in> set ks then Some (j, t) else strings r k)
             \<and> issued r' = issued r @ map (\<lambda>k. SET_EX_NX k j t) ks)
      \<and> (res = Inr False \<and> list_all (\<lambda>b. b) lr \<longrightarrow> n < length ks
             \<and> (strings r (ks ! n) \<noteq> None \<or> ks ! n \<in> set (take n ks))
             \<and> strings r' = snd (release_script acq' j (0, (\<lambda>k. if k \<in> set (take n ks) then Some (j, t) else strings r k)))
             \<and> issued r' = issued r @ map (\<lambda>k. SET_EX_NX k j t) (take (Suc n) ks) @ [EVAL_RELEASE acq' j])
      \<and> (\<forall>e. res = Inl e \<longrightarrow> strings r' = (\<lambda>k. if k \<in> set (take n ks) then Some (j, t) else strings r k))"
proof (induction ks arbitrary: lr acq r)
  case Nil
  then show ?case by (auto simp: list_all_iff)
next
  case (Cons k ks)
  obtain o1 r1 where s: "redis_set_ex_nx k j t r = (o1, r1)" by (cases "redis_set_ex_nx k j t r")
  show ?case
  proof (cases o1)
    case (Inl e)
    with Cons.prems s have "res = Inl e" "acq' = acq" "r' = r1" by auto
    moreover from s Inl have "strings r1 = strings r"
      by (auto dest: set_nx_Inl)
    ultimately show ?thesis by (intro exI[of _ 0]) auto
  next
    case (Inr b)
    show ?thesis
    proof (cases b)
      case False
      from s Inr False have st: "strings r1 = strings r" "strings r k \<noteq> None" "issued r1 = issued r @ [SET_EX_NX k j t]"
        by (auto dest: set_nx_False)
      obtain o2 r2 where rl: "releaseLockInternal acq j r1 = (o2, r2)" by (cases "releaseLockInternal acq j r1")
      show ?thesis
      proof (cases o2)
        case (Inl e)
        with Cons.prems s Inr False rl have "res = Inl e" "acq' = acq" "r' = r2" by auto
        moreover from rl Inl have "strings r2 = strings r1"
          by (auto dest: release_internal_Inl)
        ultimately show ?thesis using st by (intro exI[of _ 0]) auto
      next
        case (Inr u)
        with Cons.prems s \<open>o1 = Inr b\<close> False rl have e: "res = Inr False" "acq' = acq" "r' = r2" by auto
        from rl Inr have "strings r2 = snd (release_script acq j (0, strings r1))" "issued r2 = issued r1 @ [EVAL_RELEASE acq j]"
          by (auto dest: release_internal_Inr)
        then show ?thesis using st e by (intro exI[of _ 0]) auto
      qed
    next
      case True
      from s Inr True have st: "strings r1 = (strings r)(k \<mapsto> (j, t))" "strings r k = None" "issued r1 = issued r @ [SET_EX_NX k j t]"
        by (auto dest: set_nx_True)
      from Cons.prems s Inr True
      have rec: "acquire_loop ks j t (lr @ [True], acq @ [k]) r1 = (res, acq', r')" by simp
      from Cons.IH[OF rec] obtain n where n: "n \<le> length ks" "acq' = (acq @ [k]) @ take n ks" "distinct (take n ks)"
        "\<forall>k' \<in> set (take n ks). strings r1 k' = None"
        "res = Inr True \<longrightarrow> n = length ks \<and> strings r' = (\<lambda>k'. if k' \<in> set ks then Some (j, t) else strings r1 k')
             \<and> issued r' = issued r1 @ map (\<lambda>k. SET_EX_NX k j t) ks"
        "res = Inr False \<and> list_all (\<lambda>b. b) (lr @ [True]) \<longrightarrow> n < length ks
             \<and> (strings r1 (ks ! n) \<noteq> None \<or> ks ! n \<in> set (take n ks))
             \<and> strings r' = snd (release_script acq' j (0, (\<lambda>k'. if k' \<in> set (take n ks) then Some (j, t) else strings r1 k')))
             \<and> issued r' = issued r1 @ map (\<lambda>k. SET_EX_NX k j t) (take (Suc n) ks) @ [EVAL_RELEASE acq' j]"
        "\<forall>e. res = Inl e \<longrightarrow> strings r' = (\<lambda>k'. if k' \<in> set (take n ks) then Some (j, t) else strings r1 k')"
        by blast
      have n4: "\<forall>k'\<in>set (take n ks). k' \<noteq> k \<and> strings r k' = None"
      proof
        fix k' assume "k' \<in> set (take n ks)"
        then have "((strings r)(k \<mapsto> (j, t))) k' = None" using n(4) st(1) by simp
        then show "k' \<noteq> k \<and> strings r k' = None" by (cases "k' = k") simp_all
      qed
      have notin: "k \<notin> set (take n ks)" using n4 by blast
      show ?thesis
      proof (intro exI[of _ "Suc n"] conjI)
        show "Suc n \<le> length (k # ks)" using n(1) by simp
        show "acq' = acq @ take (Suc n) (k # ks)" using n(2) by simp
        show "distinct (take (Suc n) (k # ks))" using n(3) notin by simp
        show "\<forall>k'\<in>set (take (Suc n) (k # ks)). strings r k' = None"
          using n4 st(2) by simp
        show "res = Inr True \<longrightarrow> Suc n = length (k # ks) \<and> strings r' = (\<lambda>ka. if ka \<in> set (k # ks) then Some (j, t) else strings r ka)
             \<and> issued r' = issued r @ map (\<lambda>k. SET_EX_NX k j t) (k # ks)"
          using n(5) st by (auto simp: fun_eq_iff)
        show "res = Inr False \<and> list_all (\<lambda>b. b) lr \<longrightarrow> Suc n < length (k # ks)
             \<and> (strings r ((k # ks) ! Suc n) \<noteq> None \<or> (k # ks) ! Suc n \<in> set (take (Suc n) (k # ks)))
             \<and> strings r' = snd (release_script acq' j (0, (\<lambda>ka. if ka \<in> set (take (Suc n) (k # ks)) then Some (j, t) else strings r ka)))
             \<and> issued r' = issued r @ map (\<lambda>k. SET_EX_NX k j t) (take (Suc (Suc n)) (k # ks)) @ [EVAL_RELEASE acq' j]"
        proof (intro impI)
          assume a: "res = Inr False \<and> list_all (\<lambda>b. b) lr"
          then have b: "n < length ks" "strings r1 (ks ! n) \<noteq> None \<or> ks ! n \<in> set (take n ks)"
            "strings r' = snd (release_script acq' j (0, (\<lambda>k'. if k' \<in> set (take n ks) then Some (j, t) else strings r1 k')))"
            "issued r' = issued r1 @ map (\<lambda>k. SET_EX_NX k j t) (take (Suc n) ks) @ [EVAL_RELEASE acq' j]"
            using n(6) by auto
          have eq: "(\<lambda>k'. if k' \<in> set (take n ks) then Some (j, t) else strings r1 k')
                = (\<lambda>ka. if ka \<in> set (take (Suc n) (k # ks)) then Some (j, t) else strings r ka)"
            using st by (auto simp: fun_eq_iff)
          show "Suc n < length (k # ks)
             \<and> (strings r ((k # ks) ! Suc n) \<noteq> None \<or> (k # ks) ! Suc n \<in> set (take (Suc n) (k # ks)))
             \<and> strings r' = snd (release_script acq' j (0, (\<lambda>ka. if ka \<in> set (take (Suc n) (k # ks)) then Some (j, t) else strings r ka)))
             \<and> issued r' = issued r @ map (\<lambda>k. SET_EX_NX k j t) (take (Suc (Suc n)) (k # ks)) @ [EVAL_RELEASE acq' j]"
            using b st unfolding eq by (auto split: if_splits)
        qed
        show "\<forall>e. res = Inl e \<longrightarrow> strings r' = (\<lambda>ka. if ka \<in> set (take (Suc n) (k # ks)) then Some (j, t) else strings r ka)"
          using n(7) st by (auto simp: fun_eq_iff)
      qed
    qed
  qed
qed

lemma rollback_restores:
  "\<forall>k \<in> set ks. s k = None \<Longrightarrow>
   snd (release_script ks j (0, (\<lambda>k. if k \<in> set ks then Some (j, t) else s k))) = s"
  by (auto simp: release_script_store fun_eq_iff)

lemma acquire_loop_nofault:
  "lock_faults r = [] \<Longrightarrow>
   fst (acquire_loop ks j t (lr, acq) r)
     = Inr (list_all (\<lambda>b. b) lr \<and> distinct ks \<and> (\<forall>k \<in> set ks. strings r k = None))"
proof (induction ks arbitrary: lr acq r)
  case Nil
  then show ?case by simp
next
  case (Cons k ks)
  show ?case
  proof (cases "strings r k")
    case None
    let ?r1 = "r\<lparr>lock_faults := [], issued := issued r @ [SET_EX_NX k j t], strings := (strings r)(k \<mapsto> (j, t))\<rparr>"
    have "fst (acquire_loop (k # ks) j t (lr, acq) r) = fst (acquire_loop ks j t (lr @ [True], acq @ [k]) ?r1)"
      using None Cons.prems by (simp add: set_nx_nofault)
    also have "\<dots> = Inr (list_all (\<lambda>b. b) (lr @ [True]) \<and> distinct ks \<and> (\<forall>k' \<in> set ks. strings ?r1 k' = None))"
      by (rule Cons.IH) simp
    also have "(\<forall>k' \<in> set ks. strings ?r1 k' = None) = (k \<notin> set ks \<and> (\<forall>k' \<in> set ks. strings r k' = None))"
      by auto
    finally show ?thesis using None by auto
  next
    case (Some a)
    then show ?thesis using Cons.prems
      by (auto simp: set_nx_nofault release_internal_nofault)
  qed
qed

lemma acquireLock_False_restores:
  assumes "acquireLock rs jobId t r = (Inr False, r')"
  shows "strings r' = strings r"
proof -
  let ?ks = "generateResourceLockKeys rs"
  obtain body acquiredKeys rb where l: "acquire_loop ?ks jobId t ([], []) r = (body, acquiredKeys, rb)"
    by (cases "acquire_loop ?ks jobId t ([], []) r")
  with assms have b: "body = Inr False" "r' = rb"
    by (auto simp: acquireLock_def split: sum.splits prod.splits)
  from acquire_loop_shape[OF l] obtain n where
    "n \<le> length ?ks \<and> acquiredKeys = [] @ take n ?ks \<and> distinct (take n ?ks)
      \<and> (\<forall>k \<in> set (take n ?ks). strings r k = None)
      \<and> (body = Inr True \<longrightarrow> n = length ?ks \<and> strings rb = (\<lambda>k. if k \<in> set ?ks then Some (jobId, t) else strings r k)
             \<and> issued rb = issued r @ map (\<lambda>k. SET_EX_NX k jobId t) ?ks)
      \<and> (body = Inr False \<and> list_all (\<lambda>b. b) [] \<longrightarrow> n < length ?ks
             \<and> (strings r (?ks ! n) \<noteq> None \<or> ?ks ! n \<in> set (take n ?ks))
             \<and> strings rb = snd (release_script acquiredKeys jobId (0, (\<lambda>k. if k \<in> set (take n ?ks) then Some (jobId, t) else strings r k)))
             \<and> issued rb = issued r @ map (\<lambda>k. SET_EX_NX k jobId t) (take (Suc n) ?ks) @ [EVAL_RELEASE acquiredKeys jobId])
      \<and> (\<forall>e. body = Inl e \<longrightarrow> strings rb = (\<lambda>k. if k \<in> set (take n ?ks) then Some (jobId, t) else strings r k))"
    by blast
  then have n: "acquiredKeys = take n ?ks" "\<forall>k \<in> set (take n ?ks). strings r k = None"
    "strings rb = snd (release_script acquiredKeys jobId (0, (\<lambda>k. if k \<in> set (take n ?ks) then Some (jobId, t) else strings r k)))"
    using b(1) by simp_all
  have "snd (release_script (take n ?ks) jobId (0, (\<lambda>k. if k \<in> set (take n ?ks) then Some (jobId, t) else strings r k))) = strings r"
    using n(2) by (rule rollback_restores)
  with n b show ?thesis by simp
qed

lemma acquireLock_nofault:
  assumes "lock_faults r = []"
  shows "fst (acquireLock rs jobId t r)
     = Inr (distinct (generateResourceLockKeys rs) \<and> (\<forall>k \<in> set (generateResourceLockKeys rs). strings r k = None))"
  using acquire_loop_nofault[OF assms, of "generateResourceLockKeys rs" jobId t "[]" "[]"]
  by (auto simp: acquireLock_def split: sum.splits prod.splits)

text \<open>
  C9. For the empty list of resource identifiers and any job id, \<open>acquireLock\<close> returns
  true; it sends no command and leaves the key-value service as it was, whatever the
  service would have answered.
\<close>

theorem acquireLock_empty:
  "acquireLock [] jobId t r = (Inr True, r)"
  by (simp add: acquireLock_def generateResourceLockKeys_def)

text \<open>
  C2. When a lock key holds \<open>jobY\<close> and \<open>jobX\<close> is another job, \<open>releaseLock\<close> by \<open>jobX\<close>
  completes without error and leaves that key: it deletes exactly the keys of the
  resource list whose value is \<open>jobX\<close>. A later \<open>releaseLock\<close> by \<open>jobY\<close> completes and
  deletes the key. The service is taken to carry out the script.
\<close>

theorem releaseLock_owner_verified:
  assumes "jobX \<noteq> jobY"
    and "key \<in> set (generateResourceLockKeys rs)"
    and "strings r key = Some (jobY, t)"
    and "lock_faults r = []"
    and "releaseLock rs jobX r = (res1, r1)"
    and "releaseLock rs jobY r1 = (res2, r2)"
  shows "res1 = Inr () \<and> strings r1 key = Some (jobY, t)
       \<and> strings r1 = (\<lambda>k. if k \<in> set (generateResourceLockKeys rs) \<and> map_option fst (strings r k) = Some jobX
                            then None else strings r k)
       \<and> res2 = Inr () \<and> strings r2 key = None"
proof -
  from assms(4,5) have 1: "res1 = Inr ()" "lock_faults r1 = []"
    "strings r1 = snd (release_script (generateResourceLockKeys rs) jobX (0, strings r))"
    by (auto simp: releaseLock_def release_internal_nofault)
  from 1(2) assms(6) have 2: "res2 = Inr ()"
    "strings r2 = snd (release_script (generateResourceLockKeys rs) jobY (0, strings r1))"
    by (auto simp: releaseLock_def release_internal_nofault)
  have 3: "strings r1 key = Some (jobY, t)"
    using assms(1,3) by (simp add: 1(3) release_script_store)
  have 4: "strings r2 key = None"
    using assms(2) 3 by (simp add: 2(2) release_script_store)
  show ?thesis using 1(1) 2(1) 3 4 by (simp add: 1(3) release_script_store)
qed

theorem releaseLock_owner_verified_witness:
  "''job_x'' \<noteq> ''job_y''
   \<and> ''tx_lock:user_1'' \<in> set (generateResourceLockKeys [user_res 1, user_res 2])
   \<and> strings (redis_empty\<lparr>strings := [''tx_lock:user_1'' \<mapsto> (''job_y'', 30), ''tx_lock:user_2'' \<mapsto> (''job_x'', 30)]\<rparr>)
        ''tx_lock:user_1'' = Some (''job_y'', 30)
   \<and> fst (releaseLock [user_res 1, user_res 2] ''job_x''
        (redis_empty\<lparr>strings := [''tx_lock:user_1'' \<mapsto> (''job_y'', 30), ''tx_lock:user_2'' \<mapsto> (''job_x'', 30)]\<rparr>)) = Inr ()
   \<and> strings (snd (releaseLock [user_res 1, user_res 2] ''job_x''
        (redis_empty\<lparr>strings := [''tx_lock:user_1'' \<mapsto> (''job_y'', 30), ''tx_lock:user_2'' \<mapsto> (''job_x'', 30)]\<rparr>)))
        ''tx_lock:user_1'' = Some (''job_y'', 30)
   \<and> strings (snd (releaseLock [user_res 1, user_res 2] ''job_y'' (snd (releaseLock [user_res 1, user_res 2] ''job_x''
        (redis_empty\<lparr>strings := [''tx_lock:user_1'' \<mapsto> (''job_y'', 30), ''tx_lock:user_2'' \<mapsto> (''job_x'', 30)]\<rparr>)))))
        ''tx_lock:user_1'' = None"
proof -
  let ?r = "redis_empty\<lparr>strings := [''tx_lock:user_1'' \<mapsto> (''job_y'', 30), ''tx_lock:user_2'' \<mapsto> (''job_x'', 30)]\<rparr>"
  let ?rs = "[user_res 1, user_res 2]"
  have h1: "''job_x'' \<noteq> ''job_y''" by simp
  have h2: "''tx_lock:user_1'' \<in> set (generateResourceLockKeys ?rs)"
    by (simp add: generateResourceLockKeys_def lock_key_user_1)
  have h3: "strings ?r ''tx_lock:user_1'' = Some (''job_y'', 30)" by simp
  have h4: "lock_faults ?r = []" by (simp add: redis_empty_def)
  have h5: "releaseLock ?rs ''job_x'' ?r = (fst (releaseLock ?rs ''job_x'' ?r), snd (releaseLock ?rs ''job_x'' ?r))" by simp
  have h6: "releaseLock ?rs ''job_y'' (snd (releaseLock ?rs ''job_x'' ?r))
      = (fst (releaseLock ?rs ''job_y'' (snd (releaseLock ?rs ''job_x'' ?r))),
         snd (releaseLock ?rs ''job_y'' (snd (releaseLock ?rs ''job_x'' ?r))))" by simp
  from releaseLock_owner_verified[OF h1 h2 h3 h4 h5 h6] h1 h2 h3 show ?thesis by simp
qed

text \<open>
  C3, amended. \<open>acquireLock\<close> returns true only if every derived key was absent and is
  now set to the job id with the time to live, the keys being set in input order and
  nothing else sent. When it returns false the store is as before the call: a key was
  found present after the keys before it had been set, and the last command released
  exactly those. When the service carries out every command, the result is true exactly
  when the keys are distinct and absent. When the body of the \<open>try\<close> throws \<open>e\<close> and the
  service carries out the release of the \<open>catch\<close>, that release is sent for the keys
  acquired so far, the store is as before the call and \<open>e\<close> is thrown again. When that
  release throws as well, its exception is thrown in place of \<open>e\<close> and the keys acquired
  so far stay set.
\<close>

theorem acquireLock_all_or_nothing:
  assumes "acquire_loop (generateResourceLockKeys rs) jobId t ([], []) r = (body, acquiredKeys, rb)"
    and "acquireLock rs jobId t r = (res, r')"
  shows "(res = Inr True \<longrightarrow>
            distinct (generateResourceLockKeys rs)
          \<and> (\<forall>k \<in> set (generateResourceLockKeys rs). strings r k = None)
          \<and> strings r' = (\<lambda>k. if k \<in> set (generateResourceLockKeys rs) then Some (jobId, t) else strings r k)
          \<and> issued r' = issued r @ map (\<lambda>k. SET_EX_NX k jobId t) (generateResourceLockKeys rs))
       \<and> (res = Inr False \<longrightarrow>
            strings r' = strings r
          \<and> (\<exists>n < length (generateResourceLockKeys rs).
                acquiredKeys = take n (generateResourceLockKeys rs)
              \<and> (strings r (generateResourceLockKeys rs ! n) \<noteq> None
                   \<or> generateResourceLockKeys rs ! n \<in> set (take n (generateResourceLockKeys rs)))
              \<and> issued r' = issued r @ map (\<lambda>k. SET_EX_NX k jobId t) (take (Suc n) (generateResourceLockKeys rs))
                               @ [EVAL_RELEASE acquiredKeys jobId]))
       \<and> (lock_faults r = [] \<longrightarrow>
            res = Inr (distinct (generateResourceLockKeys rs)
                        \<and> (\<forall>k \<in> set (generateResourceLockKeys rs). strings r k = None)))
       \<and> (\<forall>e. body = Inl e \<and> fst (take_fault (lock_faults rb)) = None \<longrightarrow>
            res = Inl e \<and> strings r' = strings r
          \<and> issued r' = issued rb @ [EVAL_RELEASE acquiredKeys jobId])
       \<and> (\<forall>e e2. body = Inl e \<and> fst (take_fault (lock_faults rb)) = Some e2 \<longrightarrow>
            res = Inl e2
          \<and> (\<exists>n \<le> length (generateResourceLockKeys rs).
                acquiredKeys = take n (generateResourceLockKeys rs)
              \<and> strings r' = (\<lambda>k. if k \<in> set acquiredKeys then Some (jobId, t) else strings r k))
          \<and> issued r' = issued rb @ [EVAL_RELEASE acquiredKeys jobId])"
proof -
  let ?ks = "generateResourceLockKeys rs"
  from acquire_loop_shape[OF assms(1)] obtain n where
    "n \<le> length ?ks \<and> acquiredKeys = [] @ take n ?ks \<and> distinct (take n ?ks)
      \<and> (\<forall>k \<in> set (take n ?ks). strings r k = None)
      \<and> (body = Inr True \<longrightarrow> n = length ?ks \<and> strings rb = (\<lambda>k. if k \<in> set ?ks then Some (jobId, t) else strings r k)
             \<and> issued rb = issued r @ map (\<lambda>k. SET_EX_NX k jobId t) ?ks)
      \<and> (body = Inr False \<and> list_all (\<lambda>b. b) [] \<longrightarrow> n < length ?ks
             \<and> (strings r (?ks ! n) \<noteq> None \<or> ?ks ! n \<in> set (take n ?ks))
             \<and> strings rb = snd (release_script acquiredKeys jobId (0, (\<lambda>k. if k \<in> set (take n ?ks) then Some (jobId, t) else strings r k)))
             \<and> issued rb = issued r @ map (\<lambda>k. SET_EX_NX k jobId t) (take (Suc n) ?ks) @ [EVAL_RELEASE acquiredKeys jobId])
      \<and> (\<forall>e. body = Inl e \<longrightarrow> strings rb = (\<lambda>k. if k \<in> set (take n ?ks) then Some (jobId, t) else strings r k))"
    by blast
  then have n: "n \<le> length ?ks" "acquiredKeys = take n ?ks"
    "distinct (take n ?ks)" "\<forall>k \<in> set (take n ?ks). strings r k = None"
    and T: "body = Inr True \<longrightarrow> n = length ?ks \<and> strings rb = (\<lambda>k. if k \<in> set ?ks then Some (jobId, t) else strings r k)
             \<and> issued rb = issued r @ map (\<lambda>k. SET_EX_NX k jobId t) ?ks"
    and F: "body = Inr False \<longrightarrow> n < length ?ks
             \<and> (strings r (?ks ! n) \<noteq> None \<or> ?ks ! n \<in> set (take n ?ks))
             \<and> strings rb = snd (release_script acquiredKeys jobId (0, (\<lambda>k. if k \<in> set (take n ?ks) then Some (jobId, t) else strings r k)))
             \<and> issued rb = issued r @ map (\<lambda>k. SET_EX_NX k jobId t) (take (Suc n) ?ks) @ [EVAL_RELEASE acquiredKeys jobId]"
    and E: "\<forall>e. body = Inl e \<longrightarrow> strings rb = (\<lambda>k. if k \<in> set (take n ?ks) then Some (jobId, t) else strings r k)"
    by simp_all
  have restore: "snd (release_script acquiredKeys jobId (0, (\<lambda>k. if k \<in> set (take n ?ks) then Some (jobId, t) else strings r k))) = strings r"
    unfolding n(2) using n(4) by (rule rollback_restores)
  have c1: "res = Inr True \<longrightarrow>
            distinct ?ks \<and> (\<forall>k \<in> set ?ks. strings r k = None)
          \<and> strings r' = (\<lambda>k. if k \<in> set ?ks then Some (jobId, t) else strings r k)
          \<and> issued r' = issued r @ map (\<lambda>k. SET_EX_NX k jobId t) ?ks"
  proof
    assume "res = Inr True"
    with assms have b: "body = Inr True" "r' = rb"
      by (auto simp: acquireLock_def split: sum.splits prod.splits)
    with T n show "distinct ?ks \<and> (\<forall>k \<in> set ?ks. strings r k = None)
          \<and> strings r' = (\<lambda>k. if k \<in> set ?ks then Some (jobId, t) else strings r k)
          \<and> issued r' = issued r @ map (\<lambda>k. SET_EX_NX k jobId t) ?ks" by simp
  qed
  have c2: "res = Inr False \<longrightarrow>
            strings r' = strings r
          \<and> (\<exists>n < length ?ks. acquiredKeys = take n ?ks
              \<and> (strings r (?ks ! n) \<noteq> None \<or> ?ks ! n \<in> set (take n ?ks))
              \<and> issued r' = issued r @ map (\<lambda>k. SET_EX_NX k jobId t) (take (Suc n) ?ks) @ [EVAL_RELEASE acquiredKeys jobId])"
  proof
    assume "res = Inr False"
    with assms have b: "body = Inr False" "r' = rb"
      by (auto simp: acquireLock_def split: sum.splits prod.splits)
    with F restore n(2) show "strings r' = strings r
          \<and> (\<exists>n < length ?ks. acquiredKeys = take n ?ks
              \<and> (strings r (?ks ! n) \<noteq> None \<or> ?ks ! n \<in> set (take n ?ks))
              \<and> issued r' = issued r @ map (\<lambda>k. SET_EX_NX k jobId t) (take (Suc n) ?ks) @ [EVAL_RELEASE acquiredKeys jobId])"
      by auto
  qed
  have c3: "lock_faults r = [] \<longrightarrow> res = Inr (distinct ?ks \<and> (\<forall>k \<in> set ?ks. strings r k = None))"
  proof
    assume "lock_faults r = []"
    from acquire_loop_nofault[OF this, of ?ks jobId t "[]" "[]"] assms
    show "res = Inr (distinct ?ks \<and> (\<forall>k \<in> set ?ks. strings r k = None))"
      by (auto simp: acquireLock_def split: sum.splits prod.splits)
  qed
  have c4: "\<forall>e. body = Inl e \<and> fst (take_fault (lock_faults rb)) = None \<longrightarrow>
            res = Inl e \<and> strings r' = strings r \<and> issued r' = issued rb @ [EVAL_RELEASE acquiredKeys jobId]"
  proof (intro allI impI)
    fix e assume a: "body = Inl e \<and> fst (take_fault (lock_faults rb)) = None"
    then have rel: "releaseLockInternal acquiredKeys jobId rb
        = (Inr (), rb\<lparr>lock_faults := snd (take_fault (lock_faults rb)), issued := issued rb @ [EVAL_RELEASE acquiredKeys jobId],
                      strings := snd (release_script acquiredKeys jobId (0, strings rb))\<rparr>)"
      by (auto simp: releaseLockInternal_def redis_eval_release_def Let_def split: prod.splits)
    from a E have "strings rb = (\<lambda>k. if k \<in> set (take n ?ks) then Some (jobId, t) else strings r k)" by simp
    with restore have "snd (release_script acquiredKeys jobId (0, strings rb)) = strings r" by simp
    with a assms rel show "res = Inl e \<and> strings r' = strings r \<and> issued r' = issued rb @ [EVAL_RELEASE acquiredKeys jobId]"
      by (auto simp: acquireLock_def)
  qed
  have c5: "\<forall>e e2. body = Inl e \<and> fst (take_fault (lock_faults rb)) = Some e2 \<longrightarrow>
            res = Inl e2
          \<and> (\<exists>n \<le> length ?ks. acquiredKeys = take n ?ks
              \<and> strings r' = (\<lambda>k. if k \<in> set acquiredKeys then Some (jobId, t) else strings r k))
          \<and> issued r' = issued rb @ [EVAL_RELEASE acquiredKeys jobId]"
  proof (intro allI impI)
    fix e e2 assume a: "body = Inl e \<and> fst (take_fault (lock_faults rb)) = Some e2"
    then have rel: "releaseLockInternal acquiredKeys jobId rb
        = (Inl e2, rb\<lparr>lock_faults := snd (take_fault (lock_faults rb)), issued := issued rb @ [EVAL_RELEASE acquiredKeys jobId]\<rparr>)"
      by (auto simp: releaseLockInternal_def redis_eval_release_def Let_def split: prod.splits)
    from a E have sb: "strings rb = (\<lambda>k. if k \<in> set acquiredKeys then Some (jobId, t) else strings r k)"
      unfolding n(2) by simp
    from a assms rel have r: "res = Inl e2"
      "r' = rb\<lparr>lock_faults := snd (take_fault (lock_faults rb)), issued := issued rb @ [EVAL_RELEASE acquiredKeys jobId]\<rparr>"
      by (auto simp: acquireLock_def)
    have "\<exists>n \<le> length ?ks. acquiredKeys = take n ?ks
              \<and> strings r' = (\<lambda>k. if k \<in> set acquiredKeys then Some (jobId, t) else strings r k)"
      using n(1,2) sb r(2) by (intro exI[of _ n]) simp
    with r show "res = Inl e2
          \<and> (\<exists>n \<le> length ?ks. acquiredKeys = take n ?ks
              \<and> strings r' = (\<lambda>k. if k \<in> set acquiredKeys then Some (jobId, t) else strings r k))
          \<and> issued r' = issued rb @ [EVAL_RELEASE acquiredKeys jobId]"
      by simp
  qed
  show ?thesis using c1 c2 c3 c4 c5 by blast
qed

theorem acquireLock_all_or_nothing_witness:
  "acquireLock [user_res 1, user_res 2] ''job_a'' 30 redis_empty
     = (Inr True, redis_empty\<lparr>strings := [''tx_lock:user_1'' \<mapsto> (''job_a'', 30), ''tx_lock:user_2'' \<mapsto> (''job_a'', 30)],
                              issued := [SET_EX_NX ''tx_lock:user_1'' ''job_a'' 30, SET_EX_NX ''tx_lock:user_2'' ''job_a'' 30]\<rparr>)
   \<and> distinct (generateResourceLockKeys [user_res 1, user_res 2])
   \<and> fst (acquireLock [user_res 1, user_res 2] ''job_a'' 30
            (redis_empty\<lparr>strings := [''tx_lock:user_2'' \<mapsto> (''job_b'', 30)]\<rparr>)) = Inr False
   \<and> strings (snd (acquireLock [user_res 1, user_res 2] ''job_a'' 30
            (redis_empty\<lparr>strings := [''tx_lock:user_2'' \<mapsto> (''job_b'', 30)]\<rparr>)))
       = [''tx_lock:user_2'' \<mapsto> (''job_b'', 30)]
   \<and> fst (acquire_loop (generateResourceLockKeys [user_res 1, user_res 2]) ''job_a'' 30 ([], [])
            (redis_empty\<lparr>lock_faults := [None, Some err_conn]\<rparr>)) = Inl err_conn
   \<and> fst (acquireLock [user_res 1, user_res 2] ''job_a'' 30
            (redis_empty\<lparr>lock_faults := [None, Some err_conn]\<rparr>)) = Inl err_conn
   \<and> strings (snd (acquireLock [user_res 1, user_res 2] ''job_a'' 30
            (redis_empty\<lparr>lock_faults := [None, Some err_conn]\<rparr>))) = Map.empty"
proof -
  let ?rs = "[user_res 1, user_res 2]"
  let ?r1 = "redis_empty\<lparr>strings := [''tx_lock:user_1'' \<mapsto> (''job_a'', 30), ''tx_lock:user_2'' \<mapsto> (''job_a'', 30)],
                              issued := [SET_EX_NX ''tx_lock:user_1'' ''job_a'' 30, SET_EX_NX ''tx_lock:user_2'' ''job_a'' 30]\<rparr>"
  have a1: "acquire_loop (generateResourceLockKeys ?rs) ''job_a'' 30 ([], []) redis_empty
      = (Inr True, [''tx_lock:user_1'', ''tx_lock:user_2''], ?r1)"
    by (simp add: lock_eval)
  have a2: "acquireLock ?rs ''job_a'' 30 redis_empty = (Inr True, ?r1)"
    by (simp add: lock_eval)
  let ?rb = "redis_empty\<lparr>strings := [''tx_lock:user_2'' \<mapsto> (''job_b'', 30)]\<rparr>"
  obtain bb ab rbb where b1: "acquire_loop (generateResourceLockKeys ?rs) ''job_a'' 30 ([], []) ?rb = (bb, ab, rbb)"
    by (cases "acquire_loop (generateResourceLockKeys ?rs) ''job_a'' 30 ([], []) ?rb")
  have b2: "acquireLock ?rs ''job_a'' 30 ?rb = (fst (acquireLock ?rs ''job_a'' 30 ?rb), snd (acquireLock ?rs ''job_a'' 30 ?rb))"
    by simp
  have b3: "fst (acquireLock ?rs ''job_a'' 30 ?rb) = Inr False"
    by (simp add: lock_eval)
  let ?rc = "redis_empty\<lparr>lock_faults := [None, Some err_conn]\<rparr>"
  have c1: "acquire_loop (generateResourceLockKeys ?rs) ''job_a'' 30 ([], []) ?rc
      = (Inl err_conn, [''tx_lock:user_1''],
         redis_empty\<lparr>strings := [''tx_lock:user_1'' \<mapsto> (''job_a'', 30)],
                      issued := [SET_EX_NX ''tx_lock:user_1'' ''job_a'' 30, SET_EX_NX ''tx_lock:user_2'' ''job_a'' 30]\<rparr>)"
    by (simp add: lock_eval)
  have c2: "acquireLock ?rs ''job_a'' 30 ?rc = (fst (acquireLock ?rs ''job_a'' 30 ?rc), snd (acquireLock ?rs ''job_a'' 30 ?rc))"
    by simp
  from acquireLock_all_or_nothing[OF a1 a2] acquireLock_all_or_nothing[OF b1 b2] b3
       acquireLock_all_or_nothing[OF c1 c2] a2 c1
  show ?thesis by (simp add: redis_empty_def)
qed

text \<open>
  C3 as stated fails when the release of the \<open>catch\<close> throws as well: with two resources,
  the second \<open>SET\<close> throwing \<open>err_conn\<close> and the release throwing \<open>err_script\<close>,
  \<open>acquireLock\<close> throws \<open>err_script\<close>, not the exception of the loop, and the key
  acquired in the call stays set.
\<close>

theorem acquireLock_rollback_counterexample:
  "fst (acquire_loop (generateResourceLockKeys [user_res 1, user_res 2]) ''job_a'' 30 ([], [])
         (redis_empty\<lparr>lock_faults := [None, Some err_conn, Some err_script]\<rparr>)) = Inl err_conn
   \<and> fst (acquireLock [user_res 1, user_res 2] ''job_a'' 30
         (redis_empty\<lparr>lock_faults := [None, Some err_conn, Some err_script]\<rparr>)) = Inl err_script
   \<and> err_script \<noteq> err_conn
   \<and> strings (snd (acquireLock [user_res 1, user_res 2] ''job_a'' 30
         (redis_empty\<lparr>lock_faults := [None, Some err_conn, Some err_script]\<rparr>))) ''tx_lock:user_1''
       = Some (''job_a'', 30)
   \<and> strings redis_empty ''tx_lock:user_1'' = None"
  by (simp add: lock_eval err_conn_def err_script_def)


section \<open>Classification of errors\<close>

lemma starts_with_iff: "starts_with s t \<longleftrightarrow> (\<exists>post. s = t @ post)"
  by (induction s t rule: starts_with.induct) auto

lemma includes_str_iff: "includes_str s t \<longleftrightarrow> (\<exists>pre post. s = pre @ t @ post)"
proof (induction s)
  case Nil
  show ?case by auto
next
  case (Cons c s)
  show ?case
  proof
    assume "includes_str (c # s) t"
    then consider "starts_with (c # s) t" | "includes_str s t" by auto
    then show "\<exists>pre post. c # s = pre @ t @ post"
    proof cases
      case 1
      then obtain post where "c # s = t @ post" by (auto simp: starts_with_iff)
      then have "c # s = [] @ t @ post" by simp
      then show ?thesis by blast
    next
      case 2
      then obtain pre post where "s = pre @ t @ post" using Cons.IH by auto
      then have "c # s = (c # pre) @ t @ post" by simp
      then show ?thesis by blast
    qed
  next
    assume "\<exists>pre post. c # s = pre @ t @ post"
    then obtain pre post where e: "c # s = pre @ t @ post" by auto
    show "includes_str (c # s) t"
    proof (cases pre)
      case Nil
      with e have "starts_with (c # s) t" by (auto simp: starts_with_iff)
      then show ?thesis by simp
    next
      case (Cons a pre')
      with e have "s = pre' @ t @ post" by simp
      then have "includes_str s t" using Cons.IH by blast
      then show ?thesis by simp
    qed
  qed
qed

lemma isRetryableCompensationError_iff:
  "isRetryableCompensationError e \<longleftrightarrow>
   \<not> (\<exists>t \<in> set nonRetryableCompensationErrors. \<exists>pre post. toLowerCase (err_message e) = pre @ toLowerCase t @ post)
   \<and> (\<exists>t \<in> set retryableCompensationErrors. (\<exists>pre post. err_message e = pre @ t @ post) \<or> (\<exists>pre post. err_name e = pre @ t @ post))"
  by (simp add: isRetryableCompensationError_def Let_def list_ex_iff includes_str_iff)

lemma isDLQRetryable_iff:
  "isDLQRetryable e \<longleftrightarrow>
   \<not> (\<exists>t \<in> set nonRetryableErrors. \<exists>pre post. toLowerCase (err_message e) = pre @ toLowerCase t @ post)
   \<and> (\<exists>t \<in> set retryableErrors. (\<exists>pre post. err_message e = pre @ t @ post) \<or> (\<exists>pre post. err_name e = pre @ t @ post))"
  by (simp add: isDLQRetryable_def Let_def list_ex_iff includes_str_iff)

lemma class_dup: "isDLQRetryable (step_not_found_error ''remove_duplicates'') = False"
  by code_simp

lemma class_x_lists:
  "list_ex (\<lambda>t. includes_str (toLowerCase (err_message err_x)) (toLowerCase t)) nonRetryableErrors = False"
  "list_ex (\<lambda>t. includes_str (err_message err_x) t \<or> includes_str (err_name err_x) t) retryableErrors = False"
  by code_simp+

lemma class_ok_lists:
  "list_ex (\<lambda>t. includes_str (toLowerCase (err_message (step_not_found_error ''charge_card''))) (toLowerCase t))
     nonRetryableErrors = False"
  "includes_str (err_message (step_not_found_error ''charge_card'')) ''Step function not found'' = True"
  by code_simp+

lemma class_both_lists:
  "includes_str (toLowerCase (err_message err_both)) (toLowerCase ''not found'') = True"
  "includes_str (err_message err_both) ''Connection lost'' = True"
  by code_simp+

text \<open>
  C8. When a compensate action throws the error \<open>err\<close>: if the lower-cased message contains a
  lower-cased terminal term (\<open>not found\<close>, \<open>Invalid parameter\<close>, \<open>Permission denied\<close>,
  \<open>Constraint violation\<close>), the failure is not retryable, whatever else matches; it is
  retryable exactly when no terminal term matches in this way and some retryable term
  occurs, as written, in the message or in the name. The record written for the failure
  carries this classification.
\<close>

theorem compensation_failure_classification:
  assumes "sf_compensate (er_stepFunction e) = Some compensate"
    and "compensate (er_result e) (world s) = (Some (ErrorObject err), w)"
  shows "((\<exists>t \<in> set nonRetryableCompensationErrors.
             \<exists>pre post. toLowerCase (err_message err) = pre @ toLowerCase t @ post)
           \<longrightarrow> \<not> isRetryableCompensationError err)
       \<and> (isRetryableCompensationError err \<longleftrightarrow>
             \<not> (\<exists>t \<in> set nonRetryableCompensationErrors.
                   \<exists>pre post. toLowerCase (err_message err) = pre @ toLowerCase t @ post)
           \<and> (\<exists>t \<in> set retryableCompensationErrors.
                   (\<exists>pre post. err_message err = pre @ t @ post) \<or> (\<exists>pre post. err_name err = pre @ t @ post)))
       \<and> nonRetryableCompensationErrors
           = [''not found'', ''Invalid parameter'', ''Permission denied'', ''Constraint violation'']
       \<and> map_option cf_retryable
           (cf_hashes (snd (executeCompensation [e] job s)) (''compensation_failure:'' @ job_id job @ '':'' @ er_step e))
           = Some (isRetryableCompensationError err)"
proof -
  have rec: "map_option cf_retryable
           (cf_hashes (snd (executeCompensation [e] job s)) (''compensation_failure:'' @ job_id job @ '':'' @ er_step e))
           = Some (isRetryableCompensationError err)"
    using assms by (simp add: recordCompensationFailure_def Let_def)
  show ?thesis
    using rec isRetryableCompensationError_iff[of err]
    by (simp add: nonRetryableCompensationErrors_def)
qed

theorem compensation_failure_classification_witness:
  "sf_compensate (er_stepFunction \<lparr>er_step = ''E'', er_result = JNull, er_stepFunction = step_e\<rparr>)
     = Some (\<lambda>r w. (Some (ErrorObject err_both), w))
   \<and> (\<exists>t \<in> set nonRetryableCompensationErrors.
         \<exists>pre post. toLowerCase (err_message err_both) = pre @ toLowerCase t @ post)
   \<and> (\<exists>t \<in> set retryableCompensationErrors. \<exists>pre post. err_message err_both = pre @ t @ post)
   \<and> \<not> isRetryableCompensationError err_both
   \<and> map_option cf_retryable
        (cf_hashes (snd (executeCompensation [\<lparr>er_step = ''E'', er_result = JNull, er_stepFunction = step_e\<rparr>]
                      (ex_job [step_e]) ex_system))
           (''compensation_failure:'' @ job_id (ex_job [step_e]) @ '':''
              @ er_step \<lparr>er_step = ''E'', er_result = JNull, er_stepFunction = step_e\<rparr>))
       = Some False"
proof -
  let ?e = "\<lparr>er_step = ''E'', er_result = JNull, er_stepFunction = step_e\<rparr>"
  have h1: "sf_compensate (er_stepFunction ?e) = Some (\<lambda>r w. (Some (ErrorObject err_both), w))"
    by (simp add: step_e_def)
  have h2: "(\<lambda>r w. (Some (ErrorObject err_both), w)) (er_result ?e) (world ex_system)
      = (Some (ErrorObject err_both), world ex_system)"
    by simp
  have t1: "\<exists>t \<in> set nonRetryableCompensationErrors.
         \<exists>pre post. toLowerCase (err_message err_both) = pre @ toLowerCase t @ post"
    using class_both_lists(1)
    by (intro bexI[of _ "''not found''"]) (simp_all add: includes_str_iff nonRetryableCompensationErrors_def)
  have t2: "\<exists>t \<in> set retryableCompensationErrors. \<exists>pre post. err_message err_both = pre @ t @ post"
    using class_both_lists(2)
    by (intro bexI[of _ "''Connection lost''"]) (simp_all add: includes_str_iff retryableCompensationErrors_def)
  note t = compensation_failure_classification[OF h1 h2, of "ex_job [step_e]"]
  from t t1 have n: "\<not> isRetryableCompensationError err_both" by blast
  then have f: "isRetryableCompensationError err_both = False" by simp
  from t have rec: "map_option cf_retryable
        (cf_hashes (snd (executeCompensation [?e] (ex_job [step_e]) ex_system))
           (''compensation_failure:'' @ job_id (ex_job [step_e]) @ '':'' @ er_step ?e))
       = Some (isRetryableCompensationError err_both)" by blast
  show ?thesis
    apply (intro conjI)
        apply (rule h1)
       apply (rule t1)
      apply (rule t2)
     apply (rule n)
    apply (rule rec[unfolded f])
    done
qed


section \<open>Compensation\<close>

lemma calls_recordCompensationFailure [simp]:
  "calls (recordCompensationFailure j n r e b s) = calls s"
  by (simp add: recordCompensationFailure_def Let_def)

lemma calls_executeCompensation:
  assumes "\<forall>e \<in> set tr. throws_errors_only (er_stepFunction e)"
  shows "fst (executeCompensation tr job s) = None
       \<and> calls (snd (executeCompensation tr job s)) = calls s @ compensate_calls tr"
  using assms
proof (induction tr arbitrary: s)
  case Nil
  show ?case by (simp add: compensate_calls_def)
next
  case (Cons e tr)
  have tl: "\<forall>e \<in> set tr. throws_errors_only (er_stepFunction e)" using Cons.prems by simp
  note ih = Cons.IH[OF tl]
  show ?case
  proof (cases "sf_compensate (er_stepFunction e)")
    case None
    then show ?thesis using ih by (simp add: compensate_calls_def)
  next
    case (Some cmp)
    obtain th w where c: "cmp (er_result e) (world s) = (th, w)" by (cases "cmp (er_result e) (world s)")
    have ne: "th \<noteq> Some NotAnError"
      using Cons.prems Some c by (auto simp: throws_errors_only_def dest!: spec[of _ "er_result e"] spec[of _ "world s"])
    show ?thesis
    proof (cases th)
      case None
      with Some c show ?thesis using ih by (simp add: compensate_calls_def)
    next
      case (Some v)
      with ne obtain err where "v = ErrorObject err" by (cases v) auto
      with Some \<open>sf_compensate (er_stepFunction e) = Some cmp\<close> c show ?thesis
        using ih by (simp add: compensate_calls_def Let_def)
    qed
  qed
qed

lemma calls_executeCompensation_prefix:
  "\<exists>n. calls (snd (executeCompensation tr job s)) = calls s @ take n (compensate_calls tr)"
proof (induction tr arbitrary: s)
  case Nil
  show ?case by (simp add: compensate_calls_def)
next
  case (Cons e tr)
  show ?case
  proof (cases "sf_compensate (er_stepFunction e)")
    case None
    then show ?thesis using Cons.IH[of s] by (simp add: compensate_calls_def)
  next
    case (Some cmp)
    obtain th w where c: "cmp (er_result e) (world s) = (th, w)" by (cases "cmp (er_result e) (world s)")
    let ?s1 = "s\<lparr>world := w, calls := calls s @ [CompensateCall (er_step e) (er_result e)]\<rparr>"
    show ?thesis
    proof (cases th)
      case None
      from Cons.IH[of ?s1] obtain n where
        "calls (snd (executeCompensation tr job ?s1)) = calls ?s1 @ take n (compensate_calls tr)" by blast
      with None Some c show ?thesis
        by (intro exI[of _ "Suc n"]) (simp add: compensate_calls_def)
    next
      case (Some v)
      show ?thesis
      proof (cases v)
        case NotAnError
        with Some \<open>sf_compensate (er_stepFunction e) = Some cmp\<close> c show ?thesis
          by (intro exI[of _ "Suc 0"]) (simp add: compensate_calls_def)
      next
        case (ErrorObject err)
        let ?s2 = "if isRetryableCompensationError err
                   then recordCompensationFailure (job_id job) (er_step e) (er_result e) err True ?s1
                   else recordCompensationFailure (job_id job) (er_step e) (er_result e) err False ?s1"
        from Cons.IH[of ?s2] obtain n where
          "calls (snd (executeCompensation tr job ?s2)) = calls ?s2 @ take n (compensate_calls tr)" by blast
        with ErrorObject Some \<open>sf_compensate (er_stepFunction e) = Some cmp\<close> c show ?thesis
          by (intro exI[of _ "Suc n"]) (simp add: compensate_calls_def Let_def)
      qed
    qed
  qed
qed

lemma persisted_recordCompensationFailure [simp]:
  "persisted (recordCompensationFailure j n r e b s) = persisted s"
  by (simp add: recordCompensationFailure_def Let_def)

lemma persisted_executeCompensation:
  "persisted (snd (executeCompensation tr job s)) = persisted s"
proof (induction tr arbitrary: s)
  case Nil
  show ?case by simp
next
  case (Cons e tr)
  show ?case by (simp add: Cons.IH Let_def split: option.splits prod.splits thrown.splits)
qed

text \<open>
  C10. A trail entry whose step function has no compensate action is skipped: the
  compensation of a trail with such an entry, wherever it stands, ends in the state that
  the compensation of the trail without it ends in. So no action is invoked for it, no
  compensation-failure record is written for it, and the other entries are processed.
\<close>

theorem compensation_skips_missing:
  assumes "sf_compensate (er_stepFunction e) = None"
  shows "executeCompensation (before @ e # after) job s = executeCompensation (before @ after) job s"
proof (induction before arbitrary: s)
  case Nil
  show ?case using assms by simp
next
  case (Cons b before)
  show ?case
    by (simp add: Cons.IH Let_def split: option.splits prod.splits thrown.splits)
qed

theorem compensation_skips_missing_witness:
  "sf_compensate (er_stepFunction \<lparr>er_step = ''N'', er_result = JUndefined, er_stepFunction = step_n\<rparr>) = None
   \<and> executeCompensation
        ([\<lparr>er_step = ''B'', er_result = JVal ''b-result'', er_stepFunction = step_b\<rparr>]
          @ \<lparr>er_step = ''N'', er_result = JUndefined, er_stepFunction = step_n\<rparr>
          # [\<lparr>er_step = ''A'', er_result = JVal ''a-result'', er_stepFunction = step_a\<rparr>])
        (ex_job [step_a, step_n, step_b]) ex_system
     = executeCompensation
        ([\<lparr>er_step = ''B'', er_result = JVal ''b-result'', er_stepFunction = step_b\<rparr>]
          @ [\<lparr>er_step = ''A'', er_result = JVal ''a-result'', er_stepFunction = step_a\<rparr>])
        (ex_job [step_a, step_n, step_b]) ex_system
   \<and> calls (snd (executeCompensation
        ([\<lparr>er_step = ''B'', er_result = JVal ''b-result'', er_stepFunction = step_b\<rparr>]
          @ \<lparr>er_step = ''N'', er_result = JUndefined, er_stepFunction = step_n\<rparr>
          # [\<lparr>er_step = ''A'', er_result = JVal ''a-result'', er_stepFunction = step_a\<rparr>])
        (ex_job [step_a, step_n, step_b]) ex_system))
     = [CompensateCall ''B'' (JVal ''b-result''), CompensateCall ''A'' (JVal ''a-result'')]
   \<and> dom (cf_hashes (snd (executeCompensation
        ([\<lparr>er_step = ''B'', er_result = JVal ''b-result'', er_stepFunction = step_b\<rparr>]
          @ \<lparr>er_step = ''N'', er_result = JUndefined, er_stepFunction = step_n\<rparr>
          # [\<lparr>er_step = ''A'', er_result = JVal ''a-result'', er_stepFunction = step_a\<rparr>])
        (ex_job [step_a, step_n, step_b]) ex_system)))
     = {''compensation_failure:1:B''}"
proof -
  have h: "sf_compensate (er_stepFunction \<lparr>er_step = ''N'', er_result = JUndefined, er_stepFunction = step_n\<rparr>) = None"
    by (simp add: step_n_def)
  have c: "calls (snd (executeCompensation
        ([\<lparr>er_step = ''B'', er_result = JVal ''b-result'', er_stepFunction = step_b\<rparr>]
          @ [\<lparr>er_step = ''A'', er_result = JVal ''a-result'', er_stepFunction = step_a\<rparr>])
        (ex_job [step_a, step_n, step_b]) ex_system))
     = [CompensateCall ''B'' (JVal ''b-result''), CompensateCall ''A'' (JVal ''a-result'')]"
    by (simp add: step_a_def step_b_def ex_system_def Let_def recordCompensationFailure_def)
  have d: "dom (cf_hashes (snd (executeCompensation
        ([\<lparr>er_step = ''B'', er_result = JVal ''b-result'', er_stepFunction = step_b\<rparr>]
          @ [\<lparr>er_step = ''A'', er_result = JVal ''a-result'', er_stepFunction = step_a\<rparr>])
        (ex_job [step_a, step_n, step_b]) ex_system)))
     = {''compensation_failure:1:B''}"
    by (simp add: step_a_def step_b_def ex_system_def ex_job_def Let_def recordCompensationFailure_def)
  note t = compensation_skips_missing[OF h,
      of "[\<lparr>er_step = ''B'', er_result = JVal ''b-result'', er_stepFunction = step_b\<rparr>]"
         "[\<lparr>er_step = ''A'', er_result = JVal ''a-result'', er_stepFunction = step_a\<rparr>]"
         "ex_job [step_a, step_n, step_b]" ex_system]
  show ?thesis
    apply (intro conjI)
       apply (rule h)
      apply (rule t)
     apply (subst t)
     apply (rule c)
    apply (subst t)
    apply (rule d)
    done
qed


section \<open>The worker\<close>

lemma updateJobStepStatus_calls:
  "updateJobStepStatus job i st res s = (job1, s1) \<Longrightarrow> calls s1 = calls s \<and> world s1 = world s \<and> redis s1 = redis s"
  by (auto simp: updateJobStepStatus_def Let_def)

lemma updateJobStepStatus_names:
  "updateJobStepStatus job i st res s = (job1, s1) \<Longrightarrow>
     map step_name (steps (job_data job1)) = map step_name (steps (job_data job))"
proof -
  assume a: "updateJobStepStatus job i st res s = (job1, s1)"
  have "map step_name ((steps (job_data job))[i := x\<lparr>step_status := st\<rparr>]) = map step_name (steps (job_data job))"
    if "x = steps (job_data job) ! i" for x :: "'a job_step"
    using that by (cases "i < length (steps (job_data job))") (simp_all add: map_update list_update_same_conv list_update_beyond)
  moreover have "map step_name ((steps (job_data job))[i := x\<lparr>step_status := st, step_result := res\<rparr>]) = map step_name (steps (job_data job))"
    if "x = steps (job_data job) ! i" for x :: "'a job_step"
    using that by (cases "i < length (steps (job_data job))") (simp_all add: map_update list_update_same_conv list_update_beyond)
  ultimately show ?thesis using a
    by (auto simp: updateJobStepStatus_def Let_def)
qed

lemma step_failed_calls:
  assumes "step_failed job i tr e s = (res, job', s')"
    and "\<forall>x \<in> set tr. throws_errors_only (er_stepFunction x)"
  shows "res = Inl e \<and> calls s' = calls s @ compensate_calls (rev tr)"
proof -
  obtain job1 s1 where u: "updateJobStepStatus job i Failed JUndefined s = (job1, s1)"
    by (cases "updateJobStepStatus job i Failed JUndefined s")
  obtain raised s2 where c: "executeCompensation (rev tr) job1 s1 = (raised, s2)"
    by (cases "executeCompensation (rev tr) job1 s1")
  have "\<forall>x \<in> set (rev tr). throws_errors_only (er_stepFunction x)" using assms(2) by simp
  from calls_executeCompensation[OF this, of job1 s1] c
  have r: "raised = None" "calls s2 = calls s1 @ compensate_calls (rev tr)" by simp_all
  have "calls s1 = calls s" using u by (auto dest: updateJobStepStatus_calls)
  with assms(1) u c r show ?thesis by (simp add: step_failed_def)
qed

lemma step_failed_calls_prefix:
  assumes "step_failed job i tr e s = (res, job', s')"
  shows "\<exists>n. calls s' = calls s @ take n (compensate_calls (rev tr))"
proof -
  obtain job1 s1 where u: "updateJobStepStatus job i Failed JUndefined s = (job1, s1)"
    by (cases "updateJobStepStatus job i Failed JUndefined s")
  obtain raised s2 where c: "executeCompensation (rev tr) job1 s1 = (raised, s2)"
    by (cases "executeCompensation (rev tr) job1 s1")
  from calls_executeCompensation_prefix[of "rev tr" job1 s1] c obtain n where
    "calls s2 = calls s1 @ take n (compensate_calls (rev tr))" by auto
  moreover have "calls s1 = calls s" using u by (auto dest: updateJobStepStatus_calls)
  moreover have "s' = s2" using assms u c by (auto simp: step_failed_def split: option.splits)
  ultimately show ?thesis by auto
qed

lemma run_steps_failure:
  "run_steps reg i job tr s = (Inl err, job', s') \<Longrightarrow>
   \<forall>n \<in> set (map step_name (steps (job_data job))). \<forall>sf. reg n = Some sf \<longrightarrow> throws_errors_only sf \<Longrightarrow>
   \<forall>x \<in> set tr. throws_errors_only (er_stepFunction x) \<Longrightarrow>
   \<exists>j done. i \<le> j \<and> j < length (steps (job_data job))
     \<and> done = execute_results reg (drop i (map step_name (steps (job_data job)))) (world s)
     \<and> map er_step done = take (j - i) (drop i (map step_name (steps (job_data job))))
     \<and> (\<forall>e \<in> set done. reg (er_step e) = Some (er_stepFunction e))
     \<and> calls s' = calls s @ map (\<lambda>e. ExecuteCall (er_step e)) done
          @ (case reg (step_name (steps (job_data job) ! j)) of
               None \<Rightarrow> []
             | Some f \<Rightarrow> [ExecuteCall (step_name (steps (job_data job) ! j))])
          @ compensate_calls (rev (tr @ done))"
proof (induction reg i job tr s arbitrary: err job' s' rule: run_steps.induct)
  case (1 reg i job tr s)
  let ?names = "map step_name (steps (job_data job))"
  let ?name = "step_name (steps (job_data job) ! i)"
  note h1 = "1.prems"(2)
  note h2 = "1.prems"(3)
  show ?case
  proof (cases "i < length (steps (job_data job))")
    case False
    with "1.prems"(1) show ?thesis by (simp add: run_steps.simps)
  next
    case True
    have dr: "drop i ?names = ?name # drop (i + 1) ?names"
      using True Cons_nth_drop_Suc[of i ?names] by simp
    obtain job1 s1 where u1: "updateJobStepStatus job i InProgress JUndefined s = (job1, s1)"
      by (cases "updateJobStepStatus job i InProgress JUndefined s")
    have c1: "calls s1 = calls s" "world s1 = world s" using u1 by (auto dest: updateJobStepStatus_calls)
    show ?thesis
    proof (cases "reg ?name")
      case None
      with "1.prems"(1) True u1 have "step_failed job1 i tr (step_not_found_error ?name) s1 = (Inl err, job', s')"
        by (simp add: run_steps.simps Let_def)
      from step_failed_calls[OF this h2] have "calls s' = calls s @ compensate_calls (rev tr)"
        using c1 by simp
      with None True dr show ?thesis
        by (intro exI[of _ i] exI[of _ "[]"]) simp
    next
      case (Some sf)
      obtain outcome w where ex: "sf_execute sf (world s1) = (outcome, w)"
        by (cases "sf_execute sf (world s1)")
      let ?s2 = "s1\<lparr>world := w, calls := calls s1 @ [ExecuteCall ?name]\<rparr>"
      show ?thesis
      proof (cases outcome)
        case (Inl e)
        with "1.prems"(1) True u1 Some ex have "step_failed job1 i tr e ?s2 = (Inl err, job', s')"
          by (simp add: run_steps.simps Let_def)
        from step_failed_calls[OF this h2] have "calls s' = calls s @ [ExecuteCall ?name] @ compensate_calls (rev tr)"
          using c1 by simp
        with Some True dr ex Inl c1 show ?thesis
          by (intro exI[of _ i] exI[of _ "[]"]) simp
      next
        case (Inr result)
        obtain job3 s3 where u3: "updateJobStepStatus job1 i Completed result ?s2 = (job3, s3)"
          by (cases "updateJobStepStatus job1 i Completed result ?s2")
        let ?entry = "\<lparr>er_step = ?name, er_result = result, er_stepFunction = sf\<rparr>"
        have rec: "run_steps reg (i + 1) job3 (tr @ [?entry]) s3 = (Inl err, job', s')"
          using "1.prems"(1) True u1 Some ex Inr u3 by (simp add: run_steps.simps Let_def)
        have names: "map step_name (steps (job_data job3)) = ?names"
          using updateJobStepStatus_names[OF u1] updateJobStepStatus_names[OF u3] by simp
        then have len: "length (steps (job_data job3)) = length (steps (job_data job))"
          by (metis length_map)
        have c3: "calls s3 = calls s @ [ExecuteCall ?name]" "world s3 = w"
          using u3 c1 by (auto dest: updateJobStepStatus_calls)
        have h1': "\<forall>n \<in> set (map step_name (steps (job_data job3))). \<forall>sf. reg n = Some sf \<longrightarrow> throws_errors_only sf"
          using h1 names by simp
        have "?name \<in> set ?names" using True by simp
        with h1 Some have "throws_errors_only sf" by blast
        with h2 have h2': "\<forall>x \<in> set (tr @ [?entry]). throws_errors_only (er_stepFunction x)" by simp
        have "\<exists>j done. i + 1 \<le> j \<and> j < length (steps (job_data job3))
           \<and> done = execute_results reg (drop (i + 1) (map step_name (steps (job_data job3)))) (world s3)
           \<and> map er_step done = take (j - (i + 1)) (drop (i + 1) (map step_name (steps (job_data job3))))
           \<and> (\<forall>e \<in> set done. reg (er_step e) = Some (er_stepFunction e))
           \<and> calls s' = calls s3 @ map (\<lambda>e. ExecuteCall (er_step e)) done
              @ (case reg (step_name (steps (job_data job3) ! j)) of
                   None \<Rightarrow> []
                 | Some f \<Rightarrow> [ExecuteCall (step_name (steps (job_data job3) ! j))])
              @ compensate_calls (rev ((tr @ [?entry]) @ done))"
          using True u1[symmetric] Some ex[symmetric] Inr u3[symmetric] rec h1' h2'
          by (intro "1.IH"[where err=err and job'=job' and s'=s']) auto
        then obtain j done' where j: "i + 1 \<le> j" "j < length (steps (job_data job3))"
           "done' = execute_results reg (drop (i + 1) (map step_name (steps (job_data job3)))) (world s3)"
           "map er_step done' = take (j - (i + 1)) (drop (i + 1) (map step_name (steps (job_data job3))))"
           "\<forall>e \<in> set done'. reg (er_step e) = Some (er_stepFunction e)"
           "calls s' = calls s3 @ map (\<lambda>e. ExecuteCall (er_step e)) done'
              @ (case reg (step_name (steps (job_data job3) ! j)) of
                   None \<Rightarrow> []
                 | Some f \<Rightarrow> [ExecuteCall (step_name (steps (job_data job3) ! j))])
              @ compensate_calls (rev ((tr @ [?entry]) @ done'))"
          by blast
        have nmj: "step_name (steps (job_data job3) ! j) = step_name (steps (job_data job) ! j)"
          using names j(2) len by (metis nth_map)
        have tk: "take (j - i) (drop i ?names) = ?name # take (j - (i + 1)) (drop (i + 1) ?names)"
        proof -
          have "j - i = Suc (j - (i + 1))" using j(1) by simp
          with dr show ?thesis by simp
        qed
        show ?thesis
        proof (intro exI[of _ j] exI[of _ "?entry # done'"] conjI)
          show "i \<le> j" using j(1) by simp
          show "j < length (steps (job_data job))" using j(2) len by simp
          show "?entry # done' = execute_results reg (drop i ?names) (world s)"
            using j(3) names dr Some ex Inr c1 c3 by simp
          show "map er_step (?entry # done') = take (j - i) (drop i ?names)"
            using j(4) names tk by simp
          show "\<forall>e\<in>set (?entry # done'). reg (er_step e) = Some (er_stepFunction e)"
            using j(5) Some by simp
          show "calls s' = calls s @ map (\<lambda>e. ExecuteCall (er_step e)) (?entry # done')
              @ (case reg (step_name (steps (job_data job) ! j)) of
                   None \<Rightarrow> []
                 | Some f \<Rightarrow> [ExecuteCall (step_name (steps (job_data job) ! j))])
              @ compensate_calls (rev (tr @ ?entry # done'))"
            using j(6)[unfolded nmj] c3 by simp
        qed
      qed
    qed
  qed
qed

lemma rebuild_trail_Inr:
  "rebuild_trail reg stps is acc = Inr tr \<Longrightarrow>
     (\<forall>i \<in> set is. i < length stps)
   \<and> tr = acc @ map (\<lambda>x. \<lparr>er_step = step_name x, er_result = step_result x,
                             er_stepFunction = the (reg (step_name x))\<rparr>)
                 (filter (\<lambda>x. step_status x = Completed \<and> reg (step_name x) \<noteq> None) (map (\<lambda>i. stps ! i) is))"
proof (induction "is" arbitrary: acc)
  case Nil
  then show ?case by simp
next
  case (Cons i "is")
  from Cons.prems have i: "i < length stps" by (simp split: if_splits)
  show ?case
  proof (cases "step_status (stps ! i) = Completed")
    case False
    with Cons.prems i have "rebuild_trail reg stps is acc = Inr tr" by (simp add: Let_def)
    from Cons.IH[OF this] False i show ?thesis by simp
  next
    case True
    show ?thesis
    proof (cases "reg (step_name (stps ! i))")
      case None
      with Cons.prems i True have "rebuild_trail reg stps is acc = Inr tr" by (simp add: Let_def)
      from Cons.IH[OF this] None i show ?thesis by simp
    next
      case (Some sf)
      with Cons.prems i True have "rebuild_trail reg stps is
          (acc @ [\<lparr>er_step = step_name (stps ! i), er_result = step_result (stps ! i), er_stepFunction = sf\<rparr>]) = Inr tr"
        by (simp add: Let_def)
      from Cons.IH[OF this] Some True i show ?thesis by simp
    qed
  qed
qed

lemma map_nth_upt_take: "n \<le> length xs \<Longrightarrow> map (\<lambda>i. xs ! i) [0 ..< n] = take n xs"
  by (simp add: list_eq_iff_nth_eq)

lemma rebuild_trail_take:
  assumes "rebuild_trail reg stps [0 ..< n] [] = Inr tr"
  shows "n \<le> length stps
       \<and> tr = map (\<lambda>x. \<lparr>er_step = step_name x, er_result = step_result x,
                          er_stepFunction = the (reg (step_name x))\<rparr>)
                 (filter (\<lambda>x. step_status x = Completed \<and> reg (step_name x) \<noteq> None) (take n stps))"
proof -
  from rebuild_trail_Inr[OF assms] have a: "\<forall>i \<in> set [0 ..< n]. i < length stps"
    and b: "tr = [] @ map (\<lambda>x. \<lparr>er_step = step_name x, er_result = step_result x,
                             er_stepFunction = the (reg (step_name x))\<rparr>)
                 (filter (\<lambda>x. step_status x = Completed \<and> reg (step_name x) \<noteq> None) (map (\<lambda>i. stps ! i) [0 ..< n]))"
    by blast+
  have n: "n \<le> length stps"
  proof (cases n)
    case 0
    then show ?thesis by simp
  next
    case (Suc m)
    then have "m \<in> set [0 ..< n]" by simp
    with a have "m < length stps" by blast
    with Suc show ?thesis by simp
  qed
  with b show ?thesis by (simp add: map_nth_upt_take)
qed

lemma handleDeadLetterQueue_keeps:
  "calls (handleDeadLetterQueue job e s) = calls s"
  "persisted (handleDeadLetterQueue job e s) = persisted s"
  "world (handleDeadLetterQueue job e s) = world s"
  "redis (handleDeadLetterQueue job e s) = redis s"
  by (simp_all add: handleDeadLetterQueue_def addToDLQ_def Let_def)

lemma process_locked:
  assumes "acquireLock (final_resource_identifiers (job_data job)) (job_id job) 30 (redis s) = (Inr True, r1)"
    and "process_body reg job (s\<lparr>redis := r1\<rparr>) = (outcome, job2, s2)"
  shows "calls (snd (snd (process reg job s))) = calls s2"
    and "persisted (snd (snd (process reg job s))) = persisted s2"
    and "world (snd (snd (process reg job s))) = world s2"
    and "fst (snd (process reg job s)) = job2"
    and "outcome = Inl e \<Longrightarrow> \<exists>e'. fst (process reg job s) = Inl e'"
  using assms
  by (auto simp: process_def Let_def handleDeadLetterQueue_keeps split: prod.splits sum.splits)

lemma process_not_locked:
  assumes "fst (acquireLock (final_resource_identifiers (job_data job)) (job_id job) 30 (redis s)) \<noteq> Inr True"
  shows "calls (snd (snd (process reg job s))) = calls s"
    and "persisted (snd (snd (process reg job s))) = persisted s"
    and "world (snd (snd (process reg job s))) = world s"
    and "\<exists>e. fst (process reg job s) = Inl e"
  using assms
  by (auto simp: process_def Let_def handleDeadLetterQueue_keeps split: prod.splits sum.splits)

lemma process_locked_dlq:
  assumes "acquireLock (final_resource_identifiers (job_data job)) (job_id job) 30 (redis s) = (Inr True, r1)"
    and "process_body reg job (s\<lparr>redis := r1\<rparr>) = (Inl e, job2, s2)"
  shows "dlq_hashes (snd (snd (process reg job s))) = dlq_hashes (handleDeadLetterQueue job2 e s2)"
  using assms
  by (auto simp: process_def Let_def split: prod.splits sum.splits)

lemma ex_lock:
  "acquireLock (final_resource_identifiers (job_data (ex_job stps))) (job_id (ex_job stps)) 30 (redis ex_system)
     = (Inr True, redis_empty\<lparr>strings := [''tx_lock:user_7'' \<mapsto> (''1'', 30)],
                              issued := [SET_EX_NX ''tx_lock:user_7'' ''1'' 30]\<rparr>)"
  by (simp add: ex_job_def ex_system_def new_job_data_def final_resource_identifiers_def lock_eval lock_key_user_7)

lemma ex_resumed_lock:
  "acquireLock (final_resource_identifiers (job_data ex_resumed_job)) (job_id ex_resumed_job) 30 (redis ex_system)
     = (Inr True, ex_locked)"
  by (simp add: ex_resumed_job_def ex_system_def ex_locked_def final_resource_identifiers_def lock_eval lock_key_user_7)

lemma ex_resumed_trail:
  "rebuild_trail ex_registry (steps (job_data ex_resumed_job)) [0 ..< currentStepIndex (job_data ex_resumed_job)] []
     = Inr [\<lparr>er_step = ''A'', er_result = JVal ''a-result'', er_stepFunction = step_a\<rparr>]"
  by (simp add: ex_resumed_job_def ex_registry_def Let_def upt_rec)

lemma ex_resumed_run:
  "fst (run_steps ex_registry (currentStepIndex (job_data ex_resumed_job)) ex_resumed_job
          [\<lparr>er_step = ''A'', er_result = JVal ''a-result'', er_stepFunction = step_a\<rparr>] (ex_system\<lparr>redis := r\<rparr>))
     = Inl err_x"
  "calls (snd (snd (run_steps ex_registry (currentStepIndex (job_data ex_resumed_job)) ex_resumed_job
          [\<lparr>er_step = ''A'', er_result = JVal ''a-result'', er_stepFunction = step_a\<rparr>] (ex_system\<lparr>redis := r\<rparr>))))
     = [ExecuteCall ''B'', ExecuteCall ''C'',
        CompensateCall ''B'' (JVal ''b-result''), CompensateCall ''A'' (JVal ''a-result'')]"
  by (simp_all add: body_eval ex_resumed_job_def err_x_def)

lemma ex_process_persisted:
  "persisted (snd (snd (process ex_registry (ex_job stps) ex_system)))
     = persisted (snd (snd (process_body ex_registry (ex_job stps) (ex_system\<lparr>redis := ex_locked\<rparr>))))"
proof -
  obtain outcome job2 s2 where b: "process_body ex_registry (ex_job stps) (ex_system\<lparr>redis := ex_locked\<rparr>)
      = (outcome, job2, s2)"
    by (cases "process_body ex_registry (ex_job stps) (ex_system\<lparr>redis := ex_locked\<rparr>)")
  show ?thesis
    using process_locked(2)[OF ex_lock[folded ex_locked_def] b] b by simp
qed

lemma ex_body_dup:
  "fst (process_body ex_registry (ex_job [step_dup]) (ex_system\<lparr>redis := r\<rparr>))
     = Inl (step_not_found_error ''remove_duplicates'')"
  "dlq_counter (snd (snd (process_body ex_registry (ex_job [step_dup]) (ex_system\<lparr>redis := r\<rparr>)))) = 0"
  "dlq_hashes (snd (snd (process_body ex_registry (ex_job [step_dup]) (ex_system\<lparr>redis := r\<rparr>)))) = Map.empty"
  by (simp_all add: body_eval step_dup_def)

lemma ex_throws_errors_only:
  "throws_errors_only step_a" "throws_errors_only step_b" "throws_errors_only step_c"
  by (simp_all add: throws_errors_only_def step_a_def step_b_def step_c_def)

lemma ex_resumed_throws:
  "compensations_throw_errors ex_registry ex_resumed_job"
  using ex_throws_errors_only
  by (auto simp: compensations_throw_errors_def ex_resumed_job_def ex_registry_def)

text \<open>
  What a saga invocation does when the compensate actions of its job's steps throw
  \<open>Error\<close> objects only. An invocation that holds its lock, has rebuilt the trail of the
  steps persisted as completed, and fails in the step loop, fails at some step \<open>j\<close> after
  completing the steps from \<open>currentStepIndex\<close> to \<open>j - 1\<close>. The completed entries hold
  the values that the \<open>execute\<close> actions of these steps returned, one after the other from
  the business state the invocation started in. The calls it made are: \<open>execute\<close> of the
  completed steps, \<open>execute\<close> of step \<open>j\<close> when it is registered, then \<open>compensate\<close> of
  exactly the entries of the trail (the rebuilt ones followed by the completed ones) that
  have a compensate action, each with the result held in its entry, in the reverse of
  the trail's order. Step \<open>j\<close> contributes no entry. A compensate action that throws an
  \<open>Error\<close> object does not stop the earlier steps' compensation. The rebuilt entries are
  the completed, registered steps before \<open>currentStepIndex\<close> with their persisted
  results.
\<close>

theorem saga_compensation_order:
  assumes "acquireLock (final_resource_identifiers (job_data job)) (job_id job) 30 (redis s) = (Inr True, r1)"
    and "rebuild_trail reg (steps (job_data job)) [0 ..< currentStepIndex (job_data job)] [] = Inr trail"
    and "run_steps reg (currentStepIndex (job_data job)) job trail (s\<lparr>redis := r1\<rparr>) = (Inl stepError, job2, s2)"
    and "compensations_throw_errors reg job"
  shows "trail = map (\<lambda>x. \<lparr>er_step = step_name x, er_result = step_result x,
                            er_stepFunction = the (reg (step_name x))\<rparr>)
                   (filter (\<lambda>x. step_status x = Completed \<and> reg (step_name x) \<noteq> None)
                      (take (currentStepIndex (job_data job)) (steps (job_data job))))
       \<and> (\<exists>j completed.
           currentStepIndex (job_data job) \<le> j \<and> j < length (steps (job_data job))
         \<and> completed = execute_results reg
                          (drop (currentStepIndex (job_data job)) (map step_name (steps (job_data job))))
                          (world s)
         \<and> map er_step completed
             = take (j - currentStepIndex (job_data job))
                 (drop (currentStepIndex (job_data job)) (map step_name (steps (job_data job))))
         \<and> (\<forall>e \<in> set completed. reg (er_step e) = Some (er_stepFunction e))
         \<and> calls (snd (snd (process reg job s)))
             = calls s @ map (\<lambda>e. ExecuteCall (er_step e)) completed
                 @ (case reg (step_name (steps (job_data job) ! j)) of
                      None \<Rightarrow> []
                    | Some f \<Rightarrow> [ExecuteCall (step_name (steps (job_data job) ! j))])
                 @ compensate_calls (rev (trail @ completed))
         \<and> (\<exists>e. fst (process reg job s) = Inl e))"
proof -
  have body: "process_body reg job (s\<lparr>redis := r1\<rparr>) = (Inl stepError, job2, s2)"
    using assms(2,3) by (simp add: process_body_def)
  have t: "trail = map (\<lambda>x. \<lparr>er_step = step_name x, er_result = step_result x,
                            er_stepFunction = the (reg (step_name x))\<rparr>)
                   (filter (\<lambda>x. step_status x = Completed \<and> reg (step_name x) \<noteq> None)
                      (take (currentStepIndex (job_data job)) (steps (job_data job))))"
    using rebuild_trail_take[OF assms(2)] by simp
  have h1: "\<forall>n \<in> set (map step_name (steps (job_data job))). \<forall>sf. reg n = Some sf \<longrightarrow> throws_errors_only sf"
    using assms(4) by (auto simp: compensations_throw_errors_def)
  have h2: "\<forall>x \<in> set trail. throws_errors_only (er_stepFunction x)"
  proof
    fix x assume "x \<in> set trail"
    then obtain y where y: "y \<in> set (take (currentStepIndex (job_data job)) (steps (job_data job)))"
        "reg (step_name y) \<noteq> None" "er_stepFunction x = the (reg (step_name y))"
      unfolding t by auto
    from y(1) have "y \<in> set (steps (job_data job))" by (rule in_set_takeD)
    with y(2,3) assms(4) show "throws_errors_only (er_stepFunction x)"
      by (auto simp: compensations_throw_errors_def)
  qed
  from run_steps_failure[OF assms(3) h1 h2] obtain j completed where
    j: "currentStepIndex (job_data job) \<le> j" "j < length (steps (job_data job))"
       "completed = execute_results reg
                          (drop (currentStepIndex (job_data job)) (map step_name (steps (job_data job))))
                          (world (s\<lparr>redis := r1\<rparr>))"
       "map er_step completed
             = take (j - currentStepIndex (job_data job))
                 (drop (currentStepIndex (job_data job)) (map step_name (steps (job_data job))))"
       "\<forall>e \<in> set completed. reg (er_step e) = Some (er_stepFunction e)"
       "calls s2 = calls (s\<lparr>redis := r1\<rparr>) @ map (\<lambda>e. ExecuteCall (er_step e)) completed
                 @ (case reg (step_name (steps (job_data job) ! j)) of
                      None \<Rightarrow> []
                    | Some f \<Rightarrow> [ExecuteCall (step_name (steps (job_data job) ! j))])
                 @ compensate_calls (rev (trail @ completed))"
    by blast
  have c: "calls (snd (snd (process reg job s))) = calls s2"
    using process_locked(1)[OF assms(1) body] .
  have e: "\<exists>e. fst (process reg job s) = Inl e"
    using process_locked(5)[OF assms(1) body] by simp
  have ex: "\<exists>j completed.
           currentStepIndex (job_data job) \<le> j \<and> j < length (steps (job_data job))
         \<and> completed = execute_results reg
                          (drop (currentStepIndex (job_data job)) (map step_name (steps (job_data job))))
                          (world s)
         \<and> map er_step completed
             = take (j - currentStepIndex (job_data job))
                 (drop (currentStepIndex (job_data job)) (map step_name (steps (job_data job))))
         \<and> (\<forall>e \<in> set completed. reg (er_step e) = Some (er_stepFunction e))
         \<and> calls (snd (snd (process reg job s)))
             = calls s @ map (\<lambda>e. ExecuteCall (er_step e)) completed
                 @ (case reg (step_name (steps (job_data job) ! j)) of
                      None \<Rightarrow> []
                    | Some f \<Rightarrow> [ExecuteCall (step_name (steps (job_data job) ! j))])
                 @ compensate_calls (rev (trail @ completed))
         \<and> (\<exists>e. fst (process reg job s) = Inl e)"
    using j c e by (intro exI[of _ j] exI[of _ completed]) simp
  show ?thesis using t ex by (rule conjI)
qed

theorem saga_compensation_order_witness:
  "acquireLock (final_resource_identifiers (job_data ex_resumed_job)) (job_id ex_resumed_job) 30 (redis ex_system)
     = (Inr True, ex_locked)
   \<and> rebuild_trail ex_registry (steps (job_data ex_resumed_job)) [0 ..< currentStepIndex (job_data ex_resumed_job)] []
       = Inr [\<lparr>er_step = ''A'', er_result = JVal ''a-result'', er_stepFunction = step_a\<rparr>]
   \<and> fst (run_steps ex_registry (currentStepIndex (job_data ex_resumed_job)) ex_resumed_job
            [\<lparr>er_step = ''A'', er_result = JVal ''a-result'', er_stepFunction = step_a\<rparr>]
            (ex_system\<lparr>redis := ex_locked\<rparr>)) = Inl err_x
   \<and> compensations_throw_errors ex_registry ex_resumed_job
   \<and> (\<exists>j completed.
           currentStepIndex (job_data ex_resumed_job) \<le> j \<and> j < length (steps (job_data ex_resumed_job))
         \<and> completed = execute_results ex_registry
                          (drop (currentStepIndex (job_data ex_resumed_job))
                             (map step_name (steps (job_data ex_resumed_job))))
                          (world ex_system)
         \<and> map er_step completed
             = take (j - currentStepIndex (job_data ex_resumed_job))
                 (drop (currentStepIndex (job_data ex_resumed_job)) (map step_name (steps (job_data ex_resumed_job))))
         \<and> (\<forall>e \<in> set completed. ex_registry (er_step e) = Some (er_stepFunction e))
         \<and> calls (snd (snd (process ex_registry ex_resumed_job ex_system)))
             = calls ex_system @ map (\<lambda>e. ExecuteCall (er_step e)) completed
                 @ (case ex_registry (step_name (steps (job_data ex_resumed_job) ! j)) of
                      None \<Rightarrow> []
                    | Some f \<Rightarrow> [ExecuteCall (step_name (steps (job_data ex_resumed_job) ! j))])
                 @ compensate_calls
                     (rev ([\<lparr>er_step = ''A'', er_result = JVal ''a-result'', er_stepFunction = step_a\<rparr>] @ completed))
         \<and> (\<exists>e. fst (process ex_registry ex_resumed_job ex_system) = Inl e))
   \<and> execute_results ex_registry
        (drop (currentStepIndex (job_data ex_resumed_job)) (map step_name (steps (job_data ex_resumed_job))))
        (world ex_system)
       = [\<lparr>er_step = ''B'', er_result = JVal ''b-result'', er_stepFunction = step_b\<rparr>]
   \<and> calls (snd (snd (process ex_registry ex_resumed_job ex_system)))
       = [ExecuteCall ''B'', ExecuteCall ''C'',
          CompensateCall ''B'' (JVal ''b-result''), CompensateCall ''A'' (JVal ''a-result'')]"
proof -
  let ?trail = "[\<lparr>er_step = ''A'', er_result = JVal ''a-result'', er_stepFunction = step_a\<rparr>]"
  obtain job2 s2 where h3: "run_steps ex_registry (currentStepIndex (job_data ex_resumed_job)) ex_resumed_job ?trail
      (ex_system\<lparr>redis := ex_locked\<rparr>) = (Inl err_x, job2, s2)"
    using ex_resumed_run(1)[of ex_locked]
    by (cases "run_steps ex_registry (currentStepIndex (job_data ex_resumed_job)) ex_resumed_job ?trail
      (ex_system\<lparr>redis := ex_locked\<rparr>)") auto
  have body: "process_body ex_registry ex_resumed_job (ex_system\<lparr>redis := ex_locked\<rparr>) = (Inl err_x, job2, s2)"
    using ex_resumed_trail h3 by (simp add: process_body_def)
  have cs: "calls s2 = [ExecuteCall ''B'', ExecuteCall ''C'',
          CompensateCall ''B'' (JVal ''b-result''), CompensateCall ''A'' (JVal ''a-result'')]"
    using ex_resumed_run(2)[of ex_locked] h3 by simp
  have conc: "calls (snd (snd (process ex_registry ex_resumed_job ex_system)))
       = [ExecuteCall ''B'', ExecuteCall ''C'',
          CompensateCall ''B'' (JVal ''b-result''), CompensateCall ''A'' (JVal ''a-result'')]"
    using process_locked(1)[OF ex_resumed_lock body] cs by simp
  have er: "execute_results ex_registry
        (drop (currentStepIndex (job_data ex_resumed_job)) (map step_name (steps (job_data ex_resumed_job))))
        (world ex_system)
       = [\<lparr>er_step = ''B'', er_result = JVal ''b-result'', er_stepFunction = step_b\<rparr>]"
    by (simp add: ex_resumed_job_def ex_registry_def ex_system_def step_b_def step_c_def)
  note t = saga_compensation_order[OF ex_resumed_lock ex_resumed_trail h3 ex_resumed_throws, THEN conjunct2]
  show ?thesis
    apply (intro conjI)
          apply (rule ex_resumed_lock)
         apply (rule ex_resumed_trail)
        apply (rule ex_resumed_run(1))
       apply (rule ex_resumed_throws)
      apply (rule t)
     apply (rule er)
    apply (rule conc)
    done
qed

lemma ex_non_error_body:
  "fst (process_body ex_registry (ex_job [step_a, step_s, step_c]) (ex_system\<lparr>redis := r\<rparr>))
     = Inl (type_error ''toLowerCase'')"
  "calls (snd (snd (process_body ex_registry (ex_job [step_a, step_s, step_c]) (ex_system\<lparr>redis := r\<rparr>))))
     = [ExecuteCall ''A'', ExecuteCall ''S'', ExecuteCall ''C'', CompensateCall ''S'' (JVal ''s-result'')]"
  "world (snd (snd (process_body ex_registry (ex_job [step_a, step_s, step_c]) (ex_system\<lparr>redis := r\<rparr>))))
     = [''A+'', ''S+'', ''C+attempt'']"
  "redis (snd (snd (process_body ex_registry (ex_job [step_a, step_s, step_c]) (ex_system\<lparr>redis := r\<rparr>)))) = r"
  "cf_hashes (snd (snd (process_body ex_registry (ex_job [step_a, step_s, step_c]) (ex_system\<lparr>redis := r\<rparr>))))
     = Map.empty"
  by (simp_all add: body_eval step_s_def)

lemma process_locked_outcome:
  assumes "acquireLock (final_resource_identifiers (job_data job)) (job_id job) 30 (redis s) = (Inr True, r1)"
    and "process_body reg job (s\<lparr>redis := r1\<rparr>) = (outcome, job2, s2)"
    and "fst (releaseLock (final_resource_identifiers (job_data job)) (job_id job) (redis s2)) = Inr ()"
  shows "fst (process reg job s) = outcome"
  using assms
  by (auto simp: process_def Let_def handleDeadLetterQueue_keeps split: prod.splits sum.splits)

text \<open>
  C4. A throw from one compensate action is not to prevent the compensation of the
  remaining earlier steps. The worker does prevent it when the value thrown is not an
  \<open>Error\<close>: for the job with the steps \<open>A\<close>, \<open>S\<close> and \<open>C\<close>, where \<open>C\<close> fails and the
  compensate action of \<open>S\<close> rejects with a value that has no message, the compensate
  action of \<open>S\<close> is invoked with the result of \<open>S\<close>, the classification of the rejection
  raises a \<open>TypeError\<close> inside the \<open>catch\<close>, and the compensate action of \<open>A\<close>, completed
  before \<open>S\<close>, is never invoked. The business state keeps the effect of \<open>A\<close>, no
  compensation-failure record is written, and \<open>process\<close> throws the \<open>TypeError\<close> in
  place of the error of \<open>C\<close>.
\<close>

theorem compensation_stops_at_non_error:
  "fst (process ex_registry (ex_job [step_a, step_s, step_c]) ex_system) = Inl (type_error ''toLowerCase'')
   \<and> calls (snd (snd (process ex_registry (ex_job [step_a, step_s, step_c]) ex_system)))
       = [ExecuteCall ''A'', ExecuteCall ''S'', ExecuteCall ''C'', CompensateCall ''S'' (JVal ''s-result'')]
   \<and> world (snd (snd (process ex_registry (ex_job [step_a, step_s, step_c]) ex_system)))
       = [''A+'', ''S+'', ''C+attempt'']
   \<and> sf_compensate step_a \<noteq> None
   \<and> cf_hashes (snd (snd (process ex_registry (ex_job [step_a, step_s, step_c]) ex_system))) = Map.empty"
proof -
  let ?job = "ex_job [step_a, step_s, step_c]"
  obtain job2 s2 where b: "process_body ex_registry ?job (ex_system\<lparr>redis := ex_locked\<rparr>)
      = (Inl (type_error ''toLowerCase''), job2, s2)"
    using ex_non_error_body(1)[of ex_locked]
    by (cases "process_body ex_registry ?job (ex_system\<lparr>redis := ex_locked\<rparr>)") auto
  have s2: "calls s2 = [ExecuteCall ''A'', ExecuteCall ''S'', ExecuteCall ''C'', CompensateCall ''S'' (JVal ''s-result'')]"
    "world s2 = [''A+'', ''S+'', ''C+attempt'']" "redis s2 = ex_locked" "cf_hashes s2 = Map.empty"
    using ex_non_error_body(2,3,4,5)[of ex_locked] b by simp_all
  note l = ex_lock[of "[step_a, step_s, step_c]", folded ex_locked_def]
  have rel: "fst (releaseLock (final_resource_identifiers (job_data ?job)) (job_id ?job) (redis s2)) = Inr ()"
    unfolding s2
    by (simp add: ex_job_def new_job_data_def final_resource_identifiers_def ex_locked_def lock_eval lock_key_user_7)
  have cf: "cf_hashes (snd (snd (process ex_registry ?job ex_system))) = cf_hashes (handleDeadLetterQueue job2 (type_error ''toLowerCase'') s2)"
    using l b by (auto simp: process_def Let_def split: prod.splits sum.splits)
  show ?thesis
    apply (intro conjI)
        apply (rule process_locked_outcome[OF l b rel])
       apply (simp only: process_locked(1)[OF l b] s2)
      apply (simp only: process_locked(3)[OF l b] s2)
     apply (simp add: step_a_def)
    apply (simp add: cf s2 handleDeadLetterQueue_def addToDLQ_def Let_def)
    done
qed

lemma new_job_data_resumable: "resumable (new_job_data uid stps k rs)"
  by (simp add: resumable_def new_job_data_def enumerate_eq_zip split_beta)

lemma first_not_completed_eq:
  assumes "\<forall>k < n. step_status (stps ! k) = Completed" and "n \<le> length stps"
    and "n < length stps \<longrightarrow> step_status (stps ! n) \<noteq> Completed"
  shows "first_not_completed stps = n"
proof -
  have "takeWhile (\<lambda>x. step_status x = Completed) stps = take n stps"
    using assms by (intro takeWhile_eq_take_P_nth) auto
  then show ?thesis using assms(2) by (simp add: first_not_completed_def)
qed

lemma updateJobStepStatus_data:
  assumes "updateJobStepStatus job i st res s = (job1, s1)" and "i < length (steps (job_data job))"
  shows "persisted s1 = persisted s @ [job_data job1]"
    and "length (steps (job_data job1)) = length (steps (job_data job))"
    and "\<forall>k < length (steps (job_data job)).
           step_status (steps (job_data job1) ! k) = (if k = i then st else step_status (steps (job_data job) ! k))"
    and "currentStepIndex (job_data job1) =
           (if st = Completed \<and> i + 1 < length (steps (job_data job)) then i + 1
            else if st = InProgress \<or> st = Completed then max (currentStepIndex (job_data job)) i
            else currentStepIndex (job_data job))"
  using assms by (auto simp: updateJobStepStatus_def Let_def nth_list_update)

lemma update_in_progress_settled:
  assumes u: "updateJobStepStatus job i st res s = (job1, s1)" and i: "i < length (steps (job_data job))"
    and st: "st = InProgress \<or> st = Failed"
    and cur: "currentStepIndex (job_data job) = i"
    and before: "\<forall>k < i. step_status (steps (job_data job) ! k) = Completed"
    and after: "\<forall>k < length (steps (job_data job)). i < k \<longrightarrow> step_status (steps (job_data job) ! k) = Pending"
  shows "index_settled (job_data job1) \<and> resumable (job_data job1) \<and> currentStepIndex (job_data job1) = i"
proof -
  note d = updateJobStepStatus_data[OF u i]
  have c: "currentStepIndex (job_data job1) = i" using d(4) st cur by auto
  have "first_not_completed (steps (job_data job1)) = i"
  proof (rule first_not_completed_eq)
    show "\<forall>k<i. step_status (steps (job_data job1) ! k) = Completed"
      using d(3) before i by auto
    show "i \<le> length (steps (job_data job1))" using d(2) i by simp
    show "i < length (steps (job_data job1)) \<longrightarrow> step_status (steps (job_data job1) ! i) \<noteq> Completed"
      using d(3) i st by auto
  qed
  moreover have "resumable (job_data job1)"
    unfolding resumable_def c using d(2) d(3) before after by auto
  ultimately show ?thesis using c d(2) i by (simp add: index_settled_def)
qed

lemma update_completed_settled:
  assumes u: "updateJobStepStatus job i Completed res s = (job1, s1)" and i: "i < length (steps (job_data job))"
    and cur: "currentStepIndex (job_data job) = i"
    and before: "\<forall>k < i. step_status (steps (job_data job) ! k) = Completed"
    and after: "\<forall>k < length (steps (job_data job)). i < k \<longrightarrow> step_status (steps (job_data job) ! k) = Pending"
  shows "index_settled (job_data job1) \<and> resumable (job_data job1)
       \<and> currentStepIndex (job_data job1) = (if i + 1 < length (steps (job_data job)) then i + 1 else i)"
proof -
  note d = updateJobStepStatus_data[OF u i]
  have c: "currentStepIndex (job_data job1) = (if i + 1 < length (steps (job_data job)) then i + 1 else i)"
    using d(4) cur by auto
  have "first_not_completed (steps (job_data job1)) = i + 1"
  proof (rule first_not_completed_eq)
    show "\<forall>k<i + 1. step_status (steps (job_data job1) ! k) = Completed"
      using d(3) before i by (auto simp: less_Suc_eq)
    show "i + 1 \<le> length (steps (job_data job1))" using d(2) i by simp
    show "i + 1 < length (steps (job_data job1)) \<longrightarrow> step_status (steps (job_data job1) ! (i + 1)) \<noteq> Completed"
      using d(2) d(3) after by auto
  qed
  moreover have "resumable (job_data job1)"
    unfolding resumable_def c using d(2) d(3) before after i by (auto simp: less_Suc_eq)
  ultimately show ?thesis using c d(2) i by (auto simp: index_settled_def)
qed

lemma step_failed_persisted:
  assumes f: "step_failed job i tr e s = (res, job', s')" and i: "i < length (steps (job_data job))"
    and cur: "currentStepIndex (job_data job) = i"
    and before: "\<forall>k < i. step_status (steps (job_data job) ! k) = Completed"
    and after: "\<forall>k < length (steps (job_data job)). i < k \<longrightarrow> step_status (steps (job_data job) ! k) = Pending"
  shows "\<exists>d. persisted s' = persisted s @ [d] \<and> index_settled d \<and> resumable d \<and> currentStepIndex d = i"
proof -
  obtain job1 s1 where u: "updateJobStepStatus job i Failed JUndefined s = (job1, s1)"
    by (cases "updateJobStepStatus job i Failed JUndefined s")
  with f have "s' = snd (executeCompensation (rev tr) job1 s1)"
    by (auto simp: step_failed_def Let_def split: prod.splits option.splits)
  then have "persisted s' = persisted s @ [job_data job1]"
    using updateJobStepStatus_data(1)[OF u i] by (simp add: persisted_executeCompensation)
  moreover have "index_settled (job_data job1) \<and> resumable (job_data job1) \<and> currentStepIndex (job_data job1) = i"
    using update_in_progress_settled[OF u i _ cur before after] by simp
  ultimately show ?thesis by blast
qed

lemma run_steps_persisted:
  assumes "run_steps reg i job tr s = (res, job', s')"
    and "i < length (steps (job_data job)) \<longrightarrow> currentStepIndex (job_data job) = i"
    and "\<forall>k < length (steps (job_data job)). k < i \<longrightarrow> step_status (steps (job_data job) ! k) = Completed"
    and "\<forall>k < length (steps (job_data job)). i < k \<longrightarrow> step_status (steps (job_data job) ! k) = Pending"
  shows "\<exists>new. persisted s' = persisted s @ new
           \<and> (\<forall>d \<in> set new. index_settled d \<and> resumable d \<and> i \<le> currentStepIndex d)
           \<and> sorted (map currentStepIndex new)"
  using assms
proof (induction reg i job tr s arbitrary: res job' s' rule: run_steps.induct)
  case (1 reg i job tr s)
  let ?name = "step_name (steps (job_data job) ! i)"
  show ?case
  proof (cases "i < length (steps (job_data job))")
    case False
    with "1.prems"(1) have "s' = s" by (simp add: run_steps.simps)
    then show ?thesis by simp
  next
    case True
    then have cur: "currentStepIndex (job_data job) = i" using "1.prems"(2) by simp
    have before: "\<forall>k < i. step_status (steps (job_data job) ! k) = Completed"
      using "1.prems"(3) True by auto
    obtain job1 s1 where u1: "updateJobStepStatus job i InProgress JUndefined s = (job1, s1)"
      by (cases "updateJobStepStatus job i InProgress JUndefined s")
    note d1 = updateJobStepStatus_data[OF u1 True]
    have g1: "index_settled (job_data job1)" "resumable (job_data job1)" "currentStepIndex (job_data job1) = i"
      using update_in_progress_settled[OF u1 True _ cur before "1.prems"(4)] by simp_all
    have i1: "i < length (steps (job_data job1))" using d1(2) True by simp
    have before1: "\<forall>k < i. step_status (steps (job_data job1) ! k) = Completed"
      using d1(3) before True by auto
    have after1: "\<forall>k < length (steps (job_data job1)). i < k \<longrightarrow> step_status (steps (job_data job1) ! k) = Pending"
      using d1(2) d1(3) "1.prems"(4) by auto
    have failed: "\<exists>new. persisted s' = persisted s @ new
           \<and> (\<forall>d \<in> set new. index_settled d \<and> resumable d \<and> i \<le> currentStepIndex d)
           \<and> sorted (map currentStepIndex new)"
      if f: "step_failed job1 i tr e sx = (res, job', s')" and px: "persisted sx = persisted s1" for e sx
    proof -
      from step_failed_persisted[OF f i1 g1(3) before1 after1] obtain d where
        "persisted s' = persisted sx @ [d]" "index_settled d" "resumable d" "currentStepIndex d = i" by blast
      then have "persisted s' = persisted s @ [job_data job1, d]"
        "\<forall>x \<in> set [job_data job1, d]. index_settled x \<and> resumable x \<and> i \<le> currentStepIndex x"
        "sorted (map currentStepIndex [job_data job1, d])"
        using px d1(1) g1 by simp_all
      then show ?thesis by blast
    qed
    show ?thesis
    proof (cases "reg ?name")
      case None
      with "1.prems"(1) True u1 have "step_failed job1 i tr (step_not_found_error ?name) s1 = (res, job', s')"
        by (simp add: run_steps.simps Let_def)
      then show ?thesis by (rule failed) simp
    next
      case (Some sf)
      obtain outcome w where ex: "sf_execute sf (world s1) = (outcome, w)"
        by (cases "sf_execute sf (world s1)")
      let ?s2 = "s1\<lparr>world := w, calls := calls s1 @ [ExecuteCall ?name]\<rparr>"
      show ?thesis
      proof (cases outcome)
        case (Inl e)
        with "1.prems"(1) True u1 Some ex have "step_failed job1 i tr e ?s2 = (res, job', s')"
          by (simp add: run_steps.simps Let_def)
        then show ?thesis by (rule failed) simp
      next
        case (Inr result)
        obtain job3 s3 where u3: "updateJobStepStatus job1 i Completed result ?s2 = (job3, s3)"
          by (cases "updateJobStepStatus job1 i Completed result ?s2")
        let ?entry = "\<lparr>er_step = ?name, er_result = result, er_stepFunction = sf\<rparr>"
        have rec: "run_steps reg (i + 1) job3 (tr @ [?entry]) s3 = (res, job', s')"
          using "1.prems"(1) True u1 Some ex Inr u3 by (simp add: run_steps.simps Let_def)
        note d3 = updateJobStepStatus_data[OF u3 i1]
        have g3: "index_settled (job_data job3)" "resumable (job_data job3)"
          "currentStepIndex (job_data job3) = (if i + 1 < length (steps (job_data job1)) then i + 1 else i)"
          using update_completed_settled[OF u3 i1 g1(3) before1 after1] by simp_all
        have p3: "persisted s3 = persisted s @ [job_data job1, job_data job3]"
          using d3(1) d1(1) by simp
        have h2: "i + 1 < length (steps (job_data job3)) \<longrightarrow> currentStepIndex (job_data job3) = i + 1"
          using g3(3) d3(2) by simp
        have h3: "\<forall>k < length (steps (job_data job3)). k < i + 1 \<longrightarrow> step_status (steps (job_data job3) ! k) = Completed"
          using d3(2) d3(3) before1 by (auto simp: less_Suc_eq)
        have h4: "\<forall>k < length (steps (job_data job3)). i + 1 < k \<longrightarrow> step_status (steps (job_data job3) ! k) = Pending"
          using d3(2) d3(3) after1 by auto
        have "\<exists>new. persisted s' = persisted s3 @ new
           \<and> (\<forall>d \<in> set new. index_settled d \<and> resumable d \<and> i + 1 \<le> currentStepIndex d)
           \<and> sorted (map currentStepIndex new)"
          using True u1[symmetric] Some ex[symmetric] Inr u3[symmetric] rec h2 h3 h4
          by (intro "1.IH"[where res=res and job'=job' and s'=s']) auto
        then obtain new where n: "persisted s' = persisted s3 @ new"
          "\<forall>d \<in> set new. index_settled d \<and> resumable d \<and> i + 1 \<le> currentStepIndex d"
          "sorted (map currentStepIndex new)" by blast
        have "persisted s' = persisted s @ (job_data job1 # job_data job3 # new)"
          using n(1) p3 by simp
        moreover have "\<forall>d \<in> set (job_data job1 # job_data job3 # new).
            index_settled d \<and> resumable d \<and> i \<le> currentStepIndex d"
          using n(2) g1 g3 by auto
        moreover have "sorted (map currentStepIndex (job_data job1 # job_data job3 # new))"
          using n(2,3) g1(3) g3(3) by auto
        ultimately show ?thesis by blast
      qed
    qed
  qed
qed

text \<open>
  C5, amended. The payloads a worker invocation persists for a resumable job have
  \<open>currentStepIndex\<close> non-decreasing, starting from the value the job had, and in each of
  them \<open>currentStepIndex\<close> is the index of the first step that is not completed (pending,
  in progress or failed), or the index of the last step when every step is completed.
  Each of them is resumable again, as is the payload the coordinator creates, so this
  holds from one invocation to the next.
\<close>

theorem currentStepIndex_persisted:
  assumes "resumable (job_data job)"
  shows "\<exists>new. persisted (snd (snd (process reg job s))) = persisted s @ new
           \<and> sorted (map currentStepIndex (job_data job # new))
           \<and> (\<forall>d \<in> set new. index_settled d \<and> resumable d)"
proof (cases "fst (acquireLock (final_resource_identifiers (job_data job)) (job_id job) 30 (redis s)) = Inr True")
  case False
  then have "persisted (snd (snd (process reg job s))) = persisted s @ []"
    by (simp add: process_not_locked)
  then show ?thesis by (intro exI[of _ "[]"]) simp
next
  case True
  then obtain r1 where l: "acquireLock (final_resource_identifiers (job_data job)) (job_id job) 30 (redis s) = (Inr True, r1)"
    by (cases "acquireLock (final_resource_identifiers (job_data job)) (job_id job) 30 (redis s)") auto
  obtain outcome job2 s2 where b: "process_body reg job (s\<lparr>redis := r1\<rparr>) = (outcome, job2, s2)"
    by (cases "process_body reg job (s\<lparr>redis := r1\<rparr>)")
  have p: "persisted (snd (snd (process reg job s))) = persisted s2"
    using process_locked(2)[OF l b] .
  show ?thesis
  proof (cases "rebuild_trail reg (steps (job_data job)) [0 ..< currentStepIndex (job_data job)] []")
    case (Inl e)
    with b have "s2 = s\<lparr>redis := r1\<rparr>" by (simp add: process_body_def)
    with p have "persisted (snd (snd (process reg job s))) = persisted s @ []" by simp
    then show ?thesis by (intro exI[of _ "[]"]) simp
  next
    case (Inr trail)
    obtain res job' s' where r: "run_steps reg (currentStepIndex (job_data job)) job trail (s\<lparr>redis := r1\<rparr>) = (res, job', s')"
      by (cases "run_steps reg (currentStepIndex (job_data job)) job trail (s\<lparr>redis := r1\<rparr>)")
    with b Inr have s2: "s2 = s'" by (auto simp: process_body_def split: sum.splits)
    from run_steps_persisted[OF r] assms obtain new where
      n: "persisted s' = persisted (s\<lparr>redis := r1\<rparr>) @ new"
         "\<forall>d \<in> set new. index_settled d \<and> resumable d \<and> currentStepIndex (job_data job) \<le> currentStepIndex d"
         "sorted (map currentStepIndex new)"
      unfolding resumable_def by blast
    show ?thesis
      using n p s2 by (intro exI[of _ new]) auto
  qed
qed

theorem currentStepIndex_persisted_witness:
  "resumable (job_data (ex_job [step_a, step_b]))
   \<and> (\<exists>new. persisted (snd (snd (process ex_registry (ex_job [step_a, step_b]) ex_system))) = persisted ex_system @ new
           \<and> sorted (map currentStepIndex (job_data (ex_job [step_a, step_b]) # new))
           \<and> (\<forall>d \<in> set new. index_settled d \<and> resumable d))
   \<and> map currentStepIndex (persisted (snd (snd (process ex_registry (ex_job [step_a, step_b]) ex_system))))
       = [0, 1, 1, 1]"
proof -
  have r: "resumable (job_data (ex_job [step_a, step_b]))"
    unfolding ex_job_def by (simp add: new_job_data_resumable)
  have e: "map currentStepIndex (persisted (snd (snd (process ex_registry (ex_job [step_a, step_b]) ex_system))))
       = [0, 1, 1, 1]"
    unfolding ex_process_persisted by (simp add: body_eval)
  note t = currentStepIndex_persisted[OF r, of ex_registry ex_system]
  show ?thesis
    apply (intro conjI)
      apply (rule r)
     apply (rule t)
    apply (rule e)
    done
qed

text \<open>
  C5 as stated fails on a job of two steps that both succeed. The four payloads
  persisted are listed with \<open>currentStepIndex\<close>, the index of the first pending step (the
  number of steps when none is pending), the number of steps and the statuses: after the
  first update the first pending step is step 1 and \<open>currentStepIndex\<close> is 0; after the last
  one every step is completed and \<open>currentStepIndex\<close> is 1, not 2.
\<close>

theorem currentStepIndex_counterexample:
  "map currentStepIndex (persisted (snd (snd (process ex_registry (ex_job [step_a, step_b]) ex_system))))
     = [0, 1, 1, 1]
   \<and> map first_pending_or_length
        (map steps (persisted (snd (snd (process ex_registry (ex_job [step_a, step_b]) ex_system)))))
     = [1, 1, 2, 2]
   \<and> map length (map steps (persisted (snd (snd (process ex_registry (ex_job [step_a, step_b]) ex_system)))))
     = [2, 2, 2, 2]
   \<and> map (map step_status)
        (map steps (persisted (snd (snd (process ex_registry (ex_job [step_a, step_b]) ex_system)))))
     = [[InProgress, Pending], [Completed, Pending], [Completed, InProgress], [Completed, Completed]]"
  unfolding ex_process_persisted
  by (simp add: body_eval first_pending_or_length_def)

text \<open>
  What the quarantine record of a failed saga holds. When the message of the final error
  contains \<open>Step function not found\<close> and, lower-cased, none of the lower-cased terminal
  terms, the priority is high and \<open>canRetry\<close> is true; when no terminal term matches in
  this way and no retryable term occurs in the message or the name, the priority is normal
  and \<open>canRetry\<close> is false; in every record the priority is high exactly when \<open>canRetry\<close>
  is true. The record is stored under the new quarantine id.
\<close>

theorem quarantine_classification:
  "((\<exists>pre post. err_message e = pre @ ''Step function not found'' @ post)
      \<and> \<not> (\<exists>t \<in> set nonRetryableErrors. \<exists>pre post. toLowerCase (err_message e) = pre @ toLowerCase t @ post)
      \<longrightarrow> priority (build_dlq_data job e) = High \<and> canRetry (build_dlq_data job e))
   \<and> (\<not> (\<exists>t \<in> set nonRetryableErrors. \<exists>pre post. toLowerCase (err_message e) = pre @ toLowerCase t @ post)
      \<and> \<not> (\<exists>t \<in> set retryableErrors.
              (\<exists>pre post. err_message e = pre @ t @ post) \<or> (\<exists>pre post. err_name e = pre @ t @ post))
      \<longrightarrow> priority (build_dlq_data job e) = Normal \<and> \<not> canRetry (build_dlq_data job e))
   \<and> ((priority (build_dlq_data job e) = High) = canRetry (build_dlq_data job e))
   \<and> dlq_hashes (handleDeadLetterQueue job e s) (''dlq:'' @ dlq_id (dlq_counter s)) = Some (build_dlq_data job e)"
proof -
  have nf: "''Step function not found'' \<in> set retryableErrors"
    by (simp add: retryableErrors_def)
  have c1: "(\<exists>pre post. err_message e = pre @ ''Step function not found'' @ post)
      \<and> \<not> (\<exists>t \<in> set nonRetryableErrors. \<exists>pre post. toLowerCase (err_message e) = pre @ toLowerCase t @ post)
      \<longrightarrow> isDLQRetryable e"
    unfolding isDLQRetryable_iff using nf by blast
  have c2: "\<not> (\<exists>t \<in> set nonRetryableErrors. \<exists>pre post. toLowerCase (err_message e) = pre @ toLowerCase t @ post)
      \<and> \<not> (\<exists>t \<in> set retryableErrors.
              (\<exists>pre post. err_message e = pre @ t @ post) \<or> (\<exists>pre post. err_name e = pre @ t @ post))
      \<longrightarrow> \<not> isDLQRetryable e"
    unfolding isDLQRetryable_iff by blast
  have p: "priority (build_dlq_data job e) = (if isDLQRetryable e then High else Normal)"
    "canRetry (build_dlq_data job e) = isDLQRetryable e"
    by (simp_all add: build_dlq_data_def Let_def)
  have st: "dlq_hashes (handleDeadLetterQueue job e s) (''dlq:'' @ dlq_id (dlq_counter s)) = Some (build_dlq_data job e)"
    by (simp add: handleDeadLetterQueue_def addToDLQ_def Let_def)
  show ?thesis using c1 c2 st unfolding p by auto
qed

theorem quarantine_classification_witness:
  "(\<exists>pre post. err_message (step_not_found_error ''charge_card'') = pre @ ''Step function not found'' @ post)
   \<and> \<not> (\<exists>t \<in> set nonRetryableErrors. \<exists>pre post.
          toLowerCase (err_message (step_not_found_error ''charge_card'')) = pre @ toLowerCase t @ post)
   \<and> priority (build_dlq_data (ex_job [step_a]) (step_not_found_error ''charge_card'')) = High
   \<and> canRetry (build_dlq_data (ex_job [step_a]) (step_not_found_error ''charge_card''))
   \<and> \<not> (\<exists>t \<in> set nonRetryableErrors. \<exists>pre post. toLowerCase (err_message err_x) = pre @ toLowerCase t @ post)
   \<and> \<not> (\<exists>t \<in> set retryableErrors.
          (\<exists>pre post. err_message err_x = pre @ t @ post) \<or> (\<exists>pre post. err_name err_x = pre @ t @ post))
   \<and> priority (build_dlq_data (ex_job [step_a]) err_x) = Normal
   \<and> \<not> canRetry (build_dlq_data (ex_job [step_a]) err_x)"
proof -
  have a1: "\<exists>pre post. err_message (step_not_found_error ''charge_card'') = pre @ ''Step function not found'' @ post"
    using class_ok_lists(2) by (simp add: includes_str_iff)
  have a2: "\<not> (\<exists>t \<in> set nonRetryableErrors. \<exists>pre post.
          toLowerCase (err_message (step_not_found_error ''charge_card'')) = pre @ toLowerCase t @ post)"
    using class_ok_lists(1) by (simp add: list_ex_iff includes_str_iff)
  have b1: "\<not> (\<exists>t \<in> set nonRetryableErrors. \<exists>pre post. toLowerCase (err_message err_x) = pre @ toLowerCase t @ post)"
    using class_x_lists(1) by (simp add: list_ex_iff includes_str_iff)
  have b2: "\<not> (\<exists>t \<in> set retryableErrors.
          (\<exists>pre post. err_message err_x = pre @ t @ post) \<or> (\<exists>pre post. err_name err_x = pre @ t @ post))"
    using class_x_lists(2) by (simp add: list_ex_iff includes_str_iff)
  from quarantine_classification[of "step_not_found_error ''charge_card''" "ex_job [step_a]" ex_system]
       quarantine_classification[of err_x "ex_job [step_a]" ex_system] a1 a2 b1 b2
  show ?thesis by blast
qed

text \<open>
  C7. A final error whose message contains \<open>Step function not found\<close> is to give a record
  with high priority and \<open>canRetry\<close> true. The worker does not do so for an unregistered
  step whose name contains a terminal term: for the job whose only step is
  \<open>remove_duplicates\<close>, not registered, it fails with
  \<open>Step function not found: remove_duplicates\<close>, whose lower case contains \<open>duplicate\<close>,
  and the record it stores has normal priority and \<open>canRetry\<close> false. The message is the
  worker's own; the terminal terms, checked first, are matched against the step name that
  the message embeds.
\<close>

theorem quarantine_unregistered_step_not_retryable:
  "fst (process_body ex_registry (ex_job [step_dup]) (ex_system\<lparr>redis := ex_locked\<rparr>))
     = Inl (step_not_found_error ''remove_duplicates'')
   \<and> includes_str (err_message (step_not_found_error ''remove_duplicates'')) ''Step function not found''
   \<and> map_option failureReason
        (dlq_hashes (snd (snd (process ex_registry (ex_job [step_dup]) ex_system))) ''dlq:dlq_0'')
       = Some ''Step function not found: remove_duplicates''
   \<and> map_option priority
        (dlq_hashes (snd (snd (process ex_registry (ex_job [step_dup]) ex_system))) ''dlq:dlq_0'')
       = Some Normal
   \<and> map_option canRetry
        (dlq_hashes (snd (snd (process ex_registry (ex_job [step_dup]) ex_system))) ''dlq:dlq_0'')
       = Some False"
proof -
  obtain job2 s2 where b: "process_body ex_registry (ex_job [step_dup]) (ex_system\<lparr>redis := ex_locked\<rparr>)
      = (Inl (step_not_found_error ''remove_duplicates''), job2, s2)"
    using ex_body_dup(1)[of ex_locked]
    by (cases "process_body ex_registry (ex_job [step_dup]) (ex_system\<lparr>redis := ex_locked\<rparr>)") auto
  have s2: "dlq_counter s2 = 0" "dlq_hashes s2 = Map.empty"
    using ex_body_dup(2,3)[of ex_locked] b by simp_all
  have "dlq_hashes (snd (snd (process ex_registry (ex_job [step_dup]) ex_system))) ''dlq:dlq_0''
      = Some (build_dlq_data job2 (step_not_found_error ''remove_duplicates''))"
    using process_locked_dlq[OF ex_lock[folded ex_locked_def] b] s2
    by (simp add: handleDeadLetterQueue_def addToDLQ_def Let_def dlq_id_0)
  moreover have "includes_str (err_message (step_not_found_error ''remove_duplicates'')) ''Step function not found''"
    by code_simp
  ultimately show ?thesis
    using ex_body_dup(1)[of ex_locked] class_dup
    by (simp add: build_dlq_data_def Let_def step_not_found_error_def)
qed


section \<open>The coordinator\<close>



















section \<open>Two workers on a common resource\<close>

lemma redis_recordCompensationFailure [simp]:
  "redis (recordCompensationFailure j n r e b s) = redis s"
  by (simp add: recordCompensationFailure_def Let_def)

lemma redis_executeCompensation:
  "redis (snd (executeCompensation tr job s)) = redis s"
proof (induction tr arbitrary: s)
  case Nil
  show ?case by simp
next
  case (Cons e tr)
  show ?case by (simp add: Cons.IH Let_def split: option.splits prod.splits thrown.splits)
qed

lemma step_failed_redis:
  assumes "step_failed job i tr e s = (res, job', s')"
  shows "redis s' = redis s"
proof -
  obtain job1 s1 where u: "updateJobStepStatus job i Failed JUndefined s = (job1, s1)"
    by (cases "updateJobStepStatus job i Failed JUndefined s")
  obtain raised s2 where c: "executeCompensation (rev tr) job1 s1 = (raised, s2)"
    by (cases "executeCompensation (rev tr) job1 s1")
  have "s' = s2" using assms u c by (auto simp: step_failed_def split: option.splits)
  moreover have "redis s2 = redis s1" using redis_executeCompensation[of "rev tr" job1 s1] c by simp
  moreover have "redis s1 = redis s" using u by (auto dest: updateJobStepStatus_calls)
  ultimately show ?thesis by simp
qed

lemma run_steps_redis:
  "run_steps reg i job tr s = (res, job', s') \<Longrightarrow> redis s' = redis s"
proof (induction reg i job tr s arbitrary: res job' s' rule: run_steps.induct)
  case (1 reg i job tr s)
  let ?name = "step_name (steps (job_data job) ! i)"
  show ?case
  proof (cases "i < length (steps (job_data job))")
    case False
    with "1.prems" show ?thesis by (simp add: run_steps.simps)
  next
    case True
    obtain job1 s1 where u1: "updateJobStepStatus job i InProgress JUndefined s = (job1, s1)"
      by (cases "updateJobStepStatus job i InProgress JUndefined s")
    have r1: "redis s1 = redis s" using u1 by (auto dest: updateJobStepStatus_calls)
    show ?thesis
    proof (cases "reg ?name")
      case None
      with "1.prems" True u1 have "step_failed job1 i tr (step_not_found_error ?name) s1 = (res, job', s')"
        by (simp add: run_steps.simps Let_def)
      then show ?thesis using r1 by (auto dest: step_failed_redis)
    next
      case (Some sf)
      obtain outcome w where ex: "sf_execute sf (world s1) = (outcome, w)"
        by (cases "sf_execute sf (world s1)")
      let ?s2 = "s1\<lparr>world := w, calls := calls s1 @ [ExecuteCall ?name]\<rparr>"
      show ?thesis
      proof (cases outcome)
        case (Inl e)
        with "1.prems" True u1 Some ex have "step_failed job1 i tr e ?s2 = (res, job', s')"
          by (simp add: run_steps.simps Let_def)
        then show ?thesis using r1 by (auto dest: step_failed_redis)
      next
        case (Inr result)
        obtain job3 s3 where u3: "updateJobStepStatus job1 i Completed result ?s2 = (job3, s3)"
          by (cases "updateJobStepStatus job1 i Completed result ?s2")
        let ?entry = "\<lparr>er_step = ?name, er_result = result, er_stepFunction = sf\<rparr>"
        have rec: "run_steps reg (i + 1) job3 (tr @ [?entry]) s3 = (res, job', s')"
          using "1.prems" True u1 Some ex Inr u3 by (simp add: run_steps.simps Let_def)
        have r3: "redis s3 = redis s" using u3 r1 by (auto dest: updateJobStepStatus_calls)
        have "redis s' = redis s3"
          using True u1[symmetric] Some ex[symmetric] Inr u3[symmetric] rec
          by (intro "1.IH"[where res=res and job'=job' and s'=s']) auto
        then show ?thesis using r3 by simp
      qed
    qed
  qed
qed

lemma process_body_redis:
  "process_body reg job s = (res, job', s') \<Longrightarrow> redis s' = redis s"
  by (auto simp: process_body_def split: sum.splits prod.splits dest: run_steps_redis)

lemma set_nx_keeps:
  "redis_set_ex_nx k j t r = (res, r1) \<Longrightarrow> strings r k' = Some v \<Longrightarrow> strings r1 k' = Some v"
  by (auto simp: redis_set_ex_nx_def Let_def split: prod.splits option.splits)

lemma release_internal_keeps:
  "releaseLockInternal ks j r = (res, r1) \<Longrightarrow> strings r k = Some (j', t) \<Longrightarrow> j' \<noteq> j \<Longrightarrow>
     strings r1 k = Some (j', t)"
  by (cases res) (auto dest!: release_internal_Inl release_internal_Inr simp: release_script_store)

lemma worker_step_keeps:
  assumes "worker_step reg w s = (w', s')" and "strings (redis s) k = Some (j, t)"
    and "job_id (wk_job w) \<noteq> j"
  shows "strings (redis s') k = Some (j, t)"
proof (cases "wk_phase w")
  case (Acquiring rest acq)
  show ?thesis
  proof (cases rest)
    case Nil
    with assms Acquiring show ?thesis by (simp add: worker_step_def Let_def)
  next
    case (Cons lockKey rest')
    obtain res r1 where st: "redis_set_ex_nx lockKey (job_id (wk_job w)) 30 (redis s) = (res, r1)"
      by (cases "redis_set_ex_nx lockKey (job_id (wk_job w)) 30 (redis s)")
    then have "redis s' = r1" using assms(1) Acquiring Cons
      by (auto simp: worker_step_def Let_def split: sum.splits if_splits)
    then show ?thesis using set_nx_keeps[OF st assms(2)] by simp
  qed
next
  case (RollingBack acq)
  obtain res r1 where st: "releaseLockInternal acq (job_id (wk_job w)) (redis s) = (res, r1)"
    by (cases "releaseLockInternal acq (job_id (wk_job w)) (redis s)")
  then have "redis s' = r1" using assms(1) RollingBack
    by (auto simp: worker_step_def Let_def handleDeadLetterQueue_keeps split: sum.splits)
  then show ?thesis using release_internal_keeps[OF st assms(2)] assms(3) by simp
next
  case (Catching acq e)
  obtain res r1 where st: "releaseLockInternal acq (job_id (wk_job w)) (redis s) = (res, r1)"
    by (cases "releaseLockInternal acq (job_id (wk_job w)) (redis s)")
  then have "redis s' = r1" using assms(1) Catching
    by (auto simp: worker_step_def Let_def handleDeadLetterQueue_keeps split: sum.splits)
  then show ?thesis using release_internal_keeps[OF st assms(2)] assms(3) by simp
next
  case Holding
  obtain outcome job2 s2 where b: "process_body reg (wk_job w) s = (outcome, job2, s2)"
    by (cases "process_body reg (wk_job w) s")
  let ?s3 = "case outcome of Inl error \<Rightarrow> handleDeadLetterQueue job2 error s2 | Inr result \<Rightarrow> s2"
  have r3: "redis ?s3 = redis s"
    using process_body_redis[OF b] by (simp add: handleDeadLetterQueue_keeps split: sum.splits)
  have "s' = ?s3" using assms(1) Holding b by (simp add: worker_step_def Let_def)
  then show ?thesis using r3 assms(2) by simp
next
  case (Releasing outcome job2)
  obtain res r4 where st: "releaseLockInternal (job_lock_keys (wk_job w)) (job_id (wk_job w)) (redis s) = (res, r4)"
    by (cases "releaseLockInternal (job_lock_keys (wk_job w)) (job_id (wk_job w)) (redis s)")
  then have "redis s' = r4" using assms(1) Releasing
    by (auto simp: worker_step_def Let_def releaseLock_def job_lock_keys_def split: sum.splits prod.splits)
  then show ?thesis using release_internal_keeps[OF st assms(2)] assms(3) by simp
next
  case (Done outcome)
  with assms show ?thesis by (simp add: worker_step_def Let_def)
qed

lemma worker_step_own:
  assumes "worker_step reg w s = (w', s')" and "worker_inv job0 w s"
  shows "worker_inv job0 w' s'"
proof (cases "wk_phase w")
  case (Acquiring rest acq)
  with assms(2) have i: "wk_job w = job0" "acq @ rest = job_lock_keys job0" "holds_keys (job_id job0) acq s"
    by (simp_all add: worker_inv_def)
  show ?thesis
  proof (cases rest)
    case Nil
    with assms(1) Acquiring i show ?thesis by (auto simp: worker_step_def Let_def worker_inv_def)
  next
    case (Cons lockKey rest')
    obtain res r1 where st: "redis_set_ex_nx lockKey (job_id job0) 30 (redis s) = (res, r1)"
      by (cases "redis_set_ex_nx lockKey (job_id job0) 30 (redis s)")
    show ?thesis
    proof (cases res)
      case (Inl e)
      with assms(1) Acquiring Cons st i show ?thesis
        by (auto simp: worker_step_def Let_def worker_inv_def)
    next
      case (Inr b)
      show ?thesis
      proof (cases b)
        case False
        with Inr assms(1) Acquiring Cons st i show ?thesis
          by (auto simp: worker_step_def Let_def worker_inv_def)
      next
        case True
        with Inr st have "strings r1 = (strings (redis s))(lockKey \<mapsto> (job_id job0, 30))"
          by (auto dest: set_nx_True)
        then have "holds_keys (job_id job0) (acq @ [lockKey]) (s\<lparr>redis := r1\<rparr>)"
          using i(3) by (auto simp: holds_keys_def)
        with True Inr assms(1) Acquiring Cons st i show ?thesis
          by (auto simp: worker_step_def Let_def worker_inv_def)
      qed
    qed
  qed
next
  case (RollingBack acq)
  with assms show ?thesis
    by (auto simp: worker_step_def Let_def worker_inv_def split: prod.splits sum.splits)
next
  case (Catching acq e)
  with assms show ?thesis
    by (auto simp: worker_step_def Let_def worker_inv_def split: prod.splits sum.splits)
next
  case Holding
  with assms(2) have i: "wk_job w = job0" "holds_keys (job_id job0) (job_lock_keys job0) s"
    by (simp_all add: worker_inv_def)
  obtain outcome job2 s2 where b: "process_body reg job0 s = (outcome, job2, s2)"
    by (cases "process_body reg job0 s")
  let ?s3 = "case outcome of Inl error \<Rightarrow> handleDeadLetterQueue job2 error s2 | Inr result \<Rightarrow> s2"
  have r3: "redis ?s3 = redis s"
    using process_body_redis[OF b] by (simp add: handleDeadLetterQueue_keeps split: sum.splits)
  have st: "w' = w\<lparr>wk_phase := Releasing outcome job2\<rparr>" "s' = ?s3"
    using assms(1) Holding b i(1) by (simp_all add: worker_step_def Let_def)
  have "holds_keys (job_id job0) (job_lock_keys job0) ?s3"
    using i(2) r3 by (simp add: holds_keys_def)
  then show ?thesis using st i(1) by (simp add: worker_inv_def)
next
  case (Releasing outcome job2)
  with assms show ?thesis
    by (auto simp: worker_step_def Let_def worker_inv_def split: prod.splits sum.splits)
next
  case (Done outcome)
  with assms show ?thesis by (auto simp: worker_step_def Let_def worker_inv_def)
qed

lemma worker_step_other:
  assumes "worker_step reg w s = (w', s')" and "worker_inv job0 w s"
    and "worker_inv job1 w1 s" and "job_id job0 \<noteq> job_id job1"
  shows "worker_inv job1 w1 s'"
proof -
  have keep: "holds_keys (job_id job1) ks s'" if h: "holds_keys (job_id job1) ks s" for ks
  proof (cases "\<exists>outcome. wk_phase w = Done outcome")
    case True
    with assms(1) have "s' = s" by (auto simp: worker_step_def Let_def)
    with h show ?thesis by simp
  next
    case False
    with assms(2) have "wk_job w = job0"
      by (cases "wk_phase w") (auto simp: worker_inv_def)
    with assms(4) have ne: "job_id (wk_job w) \<noteq> job_id job1" by simp
    show ?thesis
      unfolding holds_keys_def
    proof
      fix k assume "k \<in> set ks"
      with h have "strings (redis s) k = Some (job_id job1, 30)" by (simp add: holds_keys_def)
      from worker_step_keeps[OF assms(1) this ne] show "strings (redis s') k = Some (job_id job1, 30)" .
    qed
  qed
  show ?thesis
    using assms(3) keep by (cases "wk_phase w1") (auto simp: worker_inv_def)
qed

lemma run_schedule_inv:
  assumes "job_id ja \<noteq> job_id jb"
  shows "worker_inv ja wa s \<Longrightarrow> worker_inv jb wb s \<Longrightarrow> run_schedule reg sch (wa, wb, s) = (wa', wb', s') \<Longrightarrow>
         worker_inv ja wa' s' \<and> worker_inv jb wb' s'"
proof (induction sch arbitrary: wa wb s)
  case Nil
  then show ?case by simp
next
  case (Cons t sch)
  show ?case
  proof (cases t)
    case First
    obtain wa1 s1 where st: "worker_step reg wa s = (wa1, s1)" by (cases "worker_step reg wa s")
    have a: "worker_inv ja wa1 s1" using worker_step_own[OF st Cons.prems(1)] .
    have b: "worker_inv jb wb s1" using worker_step_other[OF st Cons.prems(1) Cons.prems(2) assms] .
    from Cons.prems(3) First st have "run_schedule reg sch (wa1, wb, s1) = (wa', wb', s')" by simp
    from Cons.IH[OF a b this] show ?thesis .
  next
    case Second
    obtain wb1 s1 where st: "worker_step reg wb s = (wb1, s1)" by (cases "worker_step reg wb s")
    have b: "worker_inv jb wb1 s1" using worker_step_own[OF st Cons.prems(2)] .
    have a: "worker_inv ja wa s1" using worker_step_other[OF st Cons.prems(2) Cons.prems(1) assms[symmetric]] .
    from Cons.prems(3) Second st have "run_schedule reg sch (wa, wb1, s1) = (wa', wb', s')" by simp
    from Cons.IH[OF a b this] show ?thesis .
  qed
qed

lemma start_worker_inv: "worker_inv job (start_worker job) s"
  by (simp add: worker_inv_def start_worker_def job_lock_keys_def holds_keys_def)

lemma never_both_holding:
  assumes "job_id ja \<noteq> job_id jb" and "set (job_lock_keys ja) \<inter> set (job_lock_keys jb) \<noteq> {}"
    and "run_schedule reg sch (start_worker ja, start_worker jb, s) = (wa, wb, s')"
  shows "\<not> (has_lock wa \<and> has_lock wb)"
proof
  assume h: "has_lock wa \<and> has_lock wb"
  from run_schedule_inv[OF assms(1) start_worker_inv start_worker_inv assms(3)]
  have "worker_inv ja wa s'" "worker_inv jb wb s'" by simp_all
  with h have a: "holds_keys (job_id ja) (job_lock_keys ja) s'" and b: "holds_keys (job_id jb) (job_lock_keys jb) s'"
    by (auto simp: worker_inv_def has_lock_def split: phase.splits)
  from assms(2) obtain k where "k \<in> set (job_lock_keys ja)" "k \<in> set (job_lock_keys jb)" by auto
  with a b have "strings (redis s') k = Some (job_id ja, 30)" "strings (redis s') k = Some (job_id jb, 30)"
    unfolding holds_keys_def by blast+
  then have "Some (job_id ja, 30::nat) = Some (job_id jb, 30)" by simp
  with assms(1) show False by simp
qed

lemma process_busy:
  assumes "lock_faults (redis s) = []"
    and "\<exists>k \<in> set (job_lock_keys job). strings (redis s) k \<noteq> None"
  shows "fst (process reg job s) = Inl (resource_busy_error (final_resource_identifiers (job_data job)))"
    and "strings (redis (snd (snd (process reg job s)))) = strings (redis s)"
    and "calls (snd (snd (process reg job s))) = calls s"
    and "world (snd (snd (process reg job s))) = world s"
proof -
  let ?rs = "final_resource_identifiers (job_data job)"
  obtain res r1 where a: "acquireLock ?rs (job_id job) 30 (redis s) = (res, r1)"
    by (cases "acquireLock ?rs (job_id job) 30 (redis s)")
  have "res = Inr False"
    using acquireLock_nofault[OF assms(1), of ?rs "job_id job" 30] a assms(2)
    by (auto simp: job_lock_keys_def)
  with a have f: "acquireLock ?rs (job_id job) 30 (redis s) = (Inr False, r1)" by simp
  have st: "strings r1 = strings (redis s)" using acquireLock_False_restores[OF f] .
  show "fst (process reg job s) = Inl (resource_busy_error ?rs)"
    using f by (simp add: process_def Let_def)
  show "strings (redis (snd (snd (process reg job s)))) = strings (redis s)"
    using f st by (simp add: process_def Let_def handleDeadLetterQueue_keeps)
  show "calls (snd (snd (process reg job s))) = calls s"
    using f by (simp add: process_def Let_def handleDeadLetterQueue_keeps)
  show "world (snd (snd (process reg job s))) = world s"
    using f by (simp add: process_def Let_def handleDeadLetterQueue_keeps)
qed

lemma run_schedule_append:
  "run_schedule reg (a @ b) c = run_schedule reg b (run_schedule reg a c)"
proof (induction a arbitrary: c)
  case Nil
  show ?case by simp
next
  case (Cons t a)
  obtain wa wb s where c: "c = (wa, wb, s)" by (cases c)
  show ?case using Cons.IH by (cases t) (simp_all add: c split: prod.splits)
qed

lemma run_first_step:
  "run_schedule reg (replicate (Suc n) First) (w, wb, s)
     = run_schedule reg (replicate n First) (fst (worker_step reg w s), wb, snd (worker_step reg w s))"
  by (simp split: prod.splits)

text \<open>
The acquisition of a worker that runs alone is the loop of \<open>acquireLock\<close>.
\<close>

lemma alone_acquire:
  assumes "acquire_loop rest (job_id job) 30 (lr, acq) (redis s) = (res, acq', r')"
    and "list_all (\<lambda>b. b) lr"
  shows "\<exists>n. run_schedule reg (replicate n First) (\<lparr>wk_job = job, wk_phase = Acquiring rest acq\<rparr>, wb, s)
           = (case res of
                Inr b \<Rightarrow>
                  if b then (\<lparr>wk_job = job, wk_phase = Holding\<rparr>, wb, s\<lparr>redis := r'\<rparr>)
                  else (\<lparr>wk_job = job,
                         wk_phase = Done (Inl (resource_busy_error (final_resource_identifiers (job_data job))))\<rparr>, wb,
                        handleDeadLetterQueue job (resource_busy_error (final_resource_identifiers (job_data job)))
                          (s\<lparr>redis := r'\<rparr>))
              | Inl e \<Rightarrow> (\<lparr>wk_job = job, wk_phase = Catching acq' e\<rparr>, wb, s\<lparr>redis := r'\<rparr>))"
  using assms
proof (induction rest arbitrary: lr acq s)
  case Nil
  then have "res = Inr True" "r' = redis s" by auto
  then have "run_schedule reg (replicate 1 First) (\<lparr>wk_job = job, wk_phase = Acquiring [] acq\<rparr>, wb, s)
      = (case res of
                Inr b \<Rightarrow>
                  if b then (\<lparr>wk_job = job, wk_phase = Holding\<rparr>, wb, s\<lparr>redis := r'\<rparr>)
                  else (\<lparr>wk_job = job,
                         wk_phase = Done (Inl (resource_busy_error (final_resource_identifiers (job_data job))))\<rparr>, wb,
                        handleDeadLetterQueue job (resource_busy_error (final_resource_identifiers (job_data job)))
                          (s\<lparr>redis := r'\<rparr>))
              | Inl e \<Rightarrow> (\<lparr>wk_job = job, wk_phase = Catching acq' e\<rparr>, wb, s\<lparr>redis := r'\<rparr>))"
    by (simp add: worker_step_def Let_def)
  then show ?case by blast
next
  case (Cons k rest)
  let ?w = "\<lparr>wk_job = job, wk_phase = Acquiring (k # rest) acq\<rparr>"
  let ?goal = "\<lambda>n. run_schedule reg (replicate n First) (?w, wb, s)
           = (case res of
                Inr b \<Rightarrow>
                  if b then (\<lparr>wk_job = job, wk_phase = Holding\<rparr>, wb, s\<lparr>redis := r'\<rparr>)
                  else (\<lparr>wk_job = job,
                         wk_phase = Done (Inl (resource_busy_error (final_resource_identifiers (job_data job))))\<rparr>, wb,
                        handleDeadLetterQueue job (resource_busy_error (final_resource_identifiers (job_data job)))
                          (s\<lparr>redis := r'\<rparr>))
              | Inl e \<Rightarrow> (\<lparr>wk_job = job, wk_phase = Catching acq' e\<rparr>, wb, s\<lparr>redis := r'\<rparr>))"
  obtain o1 r1 where st: "redis_set_ex_nx k (job_id job) 30 (redis s) = (o1, r1)"
    by (cases "redis_set_ex_nx k (job_id job) 30 (redis s)")
  show ?case
  proof (cases o1)
    case (Inl e)
    with Cons.prems(1) st have "res = Inl e" "acq' = acq" "r' = r1" by auto
    with st Inl have "?goal 1" by (simp add: worker_step_def Let_def)
    then show ?thesis by blast
  next
    case (Inr b)
    show ?thesis
    proof (cases b)
      case True
      with Cons.prems(1) st Inr
      have rec: "acquire_loop rest (job_id job) 30 (lr @ [True], acq @ [k]) (redis (s\<lparr>redis := r1\<rparr>)) = (res, acq', r')"
        by simp
      have "list_all (\<lambda>b. b) (lr @ [True])" using Cons.prems(2) by simp
      from Cons.IH[OF rec this] obtain n where
        n: "run_schedule reg (replicate n First) (\<lparr>wk_job = job, wk_phase = Acquiring rest (acq @ [k])\<rparr>, wb, s\<lparr>redis := r1\<rparr>)
           = (case res of
                Inr b \<Rightarrow>
                  if b then (\<lparr>wk_job = job, wk_phase = Holding\<rparr>, wb, s\<lparr>redis := r1, redis := r'\<rparr>)
                  else (\<lparr>wk_job = job,
                         wk_phase = Done (Inl (resource_busy_error (final_resource_identifiers (job_data job))))\<rparr>, wb,
                        handleDeadLetterQueue job (resource_busy_error (final_resource_identifiers (job_data job)))
                          (s\<lparr>redis := r1, redis := r'\<rparr>))
              | Inl e \<Rightarrow> (\<lparr>wk_job = job, wk_phase = Catching acq' e\<rparr>, wb, s\<lparr>redis := r1, redis := r'\<rparr>))"
        by blast
      have "worker_step reg ?w s = (\<lparr>wk_job = job, wk_phase = Acquiring rest (acq @ [k])\<rparr>, s\<lparr>redis := r1\<rparr>)"
        using st Inr True by (simp add: worker_step_def Let_def)
      moreover have upd: "s\<lparr>redis := r1, redis := r'\<rparr> = s\<lparr>redis := r'\<rparr>" by simp
      ultimately have "?goal (Suc n)"
        unfolding run_first_step using n[unfolded upd] by simp
      then show ?thesis by blast
    next
      case False
      have s1: "worker_step reg ?w s = (\<lparr>wk_job = job, wk_phase = RollingBack acq\<rparr>, s\<lparr>redis := r1\<rparr>)"
        using st Inr False by (simp add: worker_step_def Let_def)
      obtain o2 r2 where rl: "releaseLockInternal acq (job_id job) r1 = (o2, r2)"
        by (cases "releaseLockInternal acq (job_id job) r1")
      show ?thesis
      proof (cases o2)
        case (Inl e)
        with Cons.prems(1) st \<open>o1 = Inr b\<close> False rl have r: "res = Inl e" "acq' = acq" "r' = r2" by auto
        have "worker_step reg \<lparr>wk_job = job, wk_phase = RollingBack acq\<rparr> (s\<lparr>redis := r1\<rparr>)
            = (\<lparr>wk_job = job, wk_phase = Catching acq e\<rparr>, s\<lparr>redis := r2\<rparr>)"
          using rl Inl by (simp add: worker_step_def Let_def)
        then have "?goal (Suc (Suc 0))"
          unfolding run_first_step s1 using r by simp
        then show ?thesis by blast
      next
        case (Inr u)
        with Cons.prems(1) st \<open>o1 = Inr b\<close> False rl have r: "res = Inr False" "acq' = acq" "r' = r2" by auto
        have "worker_step reg \<lparr>wk_job = job, wk_phase = RollingBack acq\<rparr> (s\<lparr>redis := r1\<rparr>)
            = (\<lparr>wk_job = job,
                wk_phase = Done (Inl (resource_busy_error (final_resource_identifiers (job_data job))))\<rparr>,
               handleDeadLetterQueue job (resource_busy_error (final_resource_identifiers (job_data job)))
                 (s\<lparr>redis := r2\<rparr>))"
          using rl Inr by (simp add: worker_step_def Let_def)
        then have "?goal (Suc (Suc 0))"
          unfolding run_first_step s1 using r by simp
        then show ?thesis by blast
      qed
    qed
  qed
qed

text \<open>
A worker that is scheduled alone ends as \<open>process\<close> does.
\<close>

lemma worker_alone_is_process:
  "\<exists>n. run_schedule reg (replicate n First) (start_worker job, wb, s)
         = (\<lparr>wk_job = fst (snd (process reg job s)), wk_phase = Done (fst (process reg job s))\<rparr>, wb,
            snd (snd (process reg job s)))"
proof -
  let ?rs = "final_resource_identifiers (job_data job)"
  let ?ks = "generateResourceLockKeys ?rs"
  let ?target = "(\<lparr>wk_job = fst (snd (process reg job s)), wk_phase = Done (fst (process reg job s))\<rparr>, wb,
            snd (snd (process reg job s)))"
  obtain res acq' r' where l: "acquire_loop ?ks (job_id job) 30 ([], []) (redis s) = (res, acq', r')"
    by (cases "acquire_loop ?ks (job_id job) 30 ([], []) (redis s)")
  from alone_acquire[OF l, of reg wb] obtain n where
    n: "run_schedule reg (replicate n First) (\<lparr>wk_job = job, wk_phase = Acquiring ?ks []\<rparr>, wb, s)
           = (case res of
                Inr b \<Rightarrow>
                  if b then (\<lparr>wk_job = job, wk_phase = Holding\<rparr>, wb, s\<lparr>redis := r'\<rparr>)
                  else (\<lparr>wk_job = job,
                         wk_phase = Done (Inl (resource_busy_error ?rs))\<rparr>, wb,
                        handleDeadLetterQueue job (resource_busy_error ?rs) (s\<lparr>redis := r'\<rparr>))
              | Inl e \<Rightarrow> (\<lparr>wk_job = job, wk_phase = Catching acq' e\<rparr>, wb, s\<lparr>redis := r'\<rparr>))"
    by auto
  have start: "start_worker job = \<lparr>wk_job = job, wk_phase = Acquiring ?ks []\<rparr>"
    by (simp add: start_worker_def)
  show ?thesis
  proof (cases res)
    case (Inl e)
    obtain o2 r2 where rl: "releaseLockInternal acq' (job_id job) r' = (o2, r2)"
      by (cases "releaseLockInternal acq' (job_id job) r'")
    have one: "run_schedule reg (replicate 1 First) (\<lparr>wk_job = job, wk_phase = Catching acq' e\<rparr>, wb, s\<lparr>redis := r'\<rparr>)
        = ?target"
      using l Inl rl
      by (cases o2) (simp_all add: worker_step_def process_def acquireLock_def Let_def)
    have "run_schedule reg (replicate n First @ replicate 1 First) (start_worker job, wb, s) = ?target"
      unfolding run_schedule_append start n using Inl one by simp
    then have "run_schedule reg (replicate (n + 1) First) (start_worker job, wb, s) = ?target"
      by (simp only: replicate_add)
    then show ?thesis by blast
  next
    case (Inr b)
    show ?thesis
    proof (cases b)
      case False
      have "run_schedule reg (replicate n First) (start_worker job, wb, s) = ?target"
        unfolding start n using l Inr False
        by (simp add: process_def acquireLock_def Let_def)
      then show ?thesis by blast
    next
      case True
      have one: "run_schedule reg (replicate 2 First) (\<lparr>wk_job = job, wk_phase = Holding\<rparr>, wb, s\<lparr>redis := r'\<rparr>)
        = ?target"
        using l Inr True
        by (simp add: numeral_2_eq_2 worker_step_def process_def acquireLock_def Let_def split: prod.splits)
      have "run_schedule reg (replicate n First @ replicate 2 First) (start_worker job, wb, s) = ?target"
        unfolding run_schedule_append start n using Inr True one by simp
      then have "run_schedule reg (replicate (n + 2) First) (start_worker job, wb, s) = ?target"
        by (simp only: replicate_add)
      then show ?thesis by blast
    qed
  qed
qed

lemma ex_job_keys:
  "job_lock_keys ex_job_a = [''tx_lock:user_1'', ''tx_lock:user_2'']"
  "job_lock_keys ex_job_b = [''tx_lock:user_2'']"
  by (simp_all add: job_lock_keys_def ex_job_a_def ex_job_b_def new_job_data_def final_resource_identifiers_def
      generateResourceLockKeys_def lock_key_user_1 lock_key_user_2)

lemma ex_overlap:
  "case run_schedule ex_registry [First, Second, Second, Second, Second, First, First, First, First]
          (start_worker ex_job_a, start_worker ex_job_b, ex_system) of
     (wa, wb, s) \<Rightarrow> succeeded wa \<and> succeeded wb \<and> strings (redis s) = Map.empty
        \<and> world s = [''A+'', ''A+'']"
  by (simp add: start_worker_def worker_step_def ex_job_a_def ex_job_b_def succeeded_def
      final_resource_identifiers_def lock_eval body_eval)

text \<open>
  C1, amended. Two worker invocations with different job ids whose lock keys intersect
  are never both between acquisition and release (where the steps run), however their
  steps are interleaved and whatever the lock service answers (no key expires). The
  interleaved steps are those of \<open>process\<close>: a worker scheduled alone ends as \<open>process\<close>
  does. When one job holds its keys and the service carries out the commands, \<open>process\<close>
  of the other job gets no lock, throws the error whose message names the resources,
  calls no step function, and leaves every string key as it was, so the holder's keys keep
  the holder's job id.
\<close>

theorem lock_mutual_exclusion:
  assumes "job_id ja \<noteq> job_id jb"
    and "set (job_lock_keys ja) \<inter> set (job_lock_keys jb) \<noteq> {}"
  shows "(\<forall>sch wa wb s'. run_schedule reg sch (start_worker ja, start_worker jb, s) = (wa, wb, s')
            \<longrightarrow> \<not> (has_lock wa \<and> has_lock wb))
       \<and> (\<exists>n. run_schedule reg (replicate n First) (start_worker ja, start_worker jb, s)
                = (\<lparr>wk_job = fst (snd (process reg ja s)), wk_phase = Done (fst (process reg ja s))\<rparr>,
                   start_worker jb, snd (snd (process reg ja s))))
       \<and> (lock_faults (redis s) = [] \<and> holds_keys (job_id ja) (job_lock_keys ja) s
            \<longrightarrow> fst (process reg jb s) = Inl (resource_busy_error (final_resource_identifiers (job_data jb)))
              \<and> strings (redis (snd (snd (process reg jb s)))) = strings (redis s)
              \<and> calls (snd (snd (process reg jb s))) = calls s
              \<and> world (snd (snd (process reg jb s))) = world s
              \<and> holds_keys (job_id ja) (job_lock_keys ja) (snd (snd (process reg jb s))))"
proof -
  have m: "\<forall>sch wa wb s'. run_schedule reg sch (start_worker ja, start_worker jb, s) = (wa, wb, s')
            \<longrightarrow> \<not> (has_lock wa \<and> has_lock wb)"
    using never_both_holding[OF assms] by blast
  have a: "\<exists>n. run_schedule reg (replicate n First) (start_worker ja, start_worker jb, s)
                = (\<lparr>wk_job = fst (snd (process reg ja s)), wk_phase = Done (fst (process reg ja s))\<rparr>,
                   start_worker jb, snd (snd (process reg ja s)))"
    by (rule worker_alone_is_process)
  have b: "lock_faults (redis s) = [] \<and> holds_keys (job_id ja) (job_lock_keys ja) s
            \<longrightarrow> fst (process reg jb s) = Inl (resource_busy_error (final_resource_identifiers (job_data jb)))
              \<and> strings (redis (snd (snd (process reg jb s)))) = strings (redis s)
              \<and> calls (snd (snd (process reg jb s))) = calls s
              \<and> world (snd (snd (process reg jb s))) = world s
              \<and> holds_keys (job_id ja) (job_lock_keys ja) (snd (snd (process reg jb s)))"
  proof
    assume h: "lock_faults (redis s) = [] \<and> holds_keys (job_id ja) (job_lock_keys ja) s"
    from assms(2) obtain k where k: "k \<in> set (job_lock_keys ja)" "k \<in> set (job_lock_keys jb)" by auto
    with h have "strings (redis s) k \<noteq> None" by (simp add: holds_keys_def)
    with k have e: "\<exists>k \<in> set (job_lock_keys jb). strings (redis s) k \<noteq> None" by blast
    from h have f: "lock_faults (redis s) = []" by simp
    note p = process_busy[OF f e, of reg]
    have "holds_keys (job_id ja) (job_lock_keys ja) (snd (snd (process reg jb s)))"
      using h p(2) by (simp add: holds_keys_def)
    with p show "fst (process reg jb s) = Inl (resource_busy_error (final_resource_identifiers (job_data jb)))
              \<and> strings (redis (snd (snd (process reg jb s)))) = strings (redis s)
              \<and> calls (snd (snd (process reg jb s))) = calls s
              \<and> world (snd (snd (process reg jb s))) = world s
              \<and> holds_keys (job_id ja) (job_lock_keys ja) (snd (snd (process reg jb s)))"
      by simp
  qed
  show ?thesis using m a b by blast
qed

theorem lock_mutual_exclusion_witness:
  "job_id ex_job_a \<noteq> job_id ex_job_b
   \<and> set (job_lock_keys ex_job_a) \<inter> set (job_lock_keys ex_job_b) \<noteq> {}
   \<and> lock_faults (redis ex_held) = []
   \<and> holds_keys (job_id ex_job_a) (job_lock_keys ex_job_a) ex_held
   \<and> fst (process ex_registry ex_job_b ex_held)
       = Inl (resource_busy_error (final_resource_identifiers (job_data ex_job_b)))
   \<and> strings (redis (snd (snd (process ex_registry ex_job_b ex_held)))) = strings (redis ex_held)
   \<and> calls (snd (snd (process ex_registry ex_job_b ex_held))) = []
   \<and> \<not> (has_lock (fst (run_schedule ex_registry [First, Second, First, Second, First, Second]
                          (start_worker ex_job_a, start_worker ex_job_b, ex_system)))
        \<and> has_lock (fst (snd (run_schedule ex_registry [First, Second, First, Second, First, Second]
                          (start_worker ex_job_a, start_worker ex_job_b, ex_system)))))"
proof -
  have h1: "job_id ex_job_a \<noteq> job_id ex_job_b" by (simp add: ex_job_a_def ex_job_b_def)
  have h2: "set (job_lock_keys ex_job_a) \<inter> set (job_lock_keys ex_job_b) \<noteq> {}"
    by (simp add: ex_job_keys)
  have h3: "lock_faults (redis ex_held) = []" by (simp add: ex_held_def redis_empty_def)
  have ida: "job_id ex_job_a = ''1''" by (simp add: ex_job_a_def)
  have h4: "holds_keys (job_id ex_job_a) (job_lock_keys ex_job_a) ex_held"
    unfolding holds_keys_def ex_job_keys ida by (simp add: ex_held_def)
  have c: "calls ex_held = []" by (simp add: ex_held_def ex_system_def)
  note t = lock_mutual_exclusion[OF h1 h2, of ex_registry]
  have m: "\<not> (has_lock (fst (run_schedule ex_registry [First, Second, First, Second, First, Second]
                          (start_worker ex_job_a, start_worker ex_job_b, ex_system)))
        \<and> has_lock (fst (snd (run_schedule ex_registry [First, Second, First, Second, First, Second]
                          (start_worker ex_job_a, start_worker ex_job_b, ex_system)))))"
    using t[of ex_system, THEN conjunct1]
    by (metis prod.collapse)
  from t[of ex_held, THEN conjunct2, THEN conjunct2] h3 h4
  have b: "fst (process ex_registry ex_job_b ex_held)
       = Inl (resource_busy_error (final_resource_identifiers (job_data ex_job_b)))"
    "strings (redis (snd (snd (process ex_registry ex_job_b ex_held)))) = strings (redis ex_held)"
    "calls (snd (snd (process ex_registry ex_job_b ex_held))) = calls ex_held"
    by blast+
  show ?thesis
    apply (intro conjI)
           apply (rule h1)
          apply (rule h2)
         apply (rule h3)
        apply (rule h4)
       apply (rule b(1))
      apply (rule b(2))
     apply (rule b(3)[unfolded c])
    apply (rule m)
    done
qed

text \<open>
  C1 as stated fails: the two invocations can both complete successfully although they
  overlap. The first job needs the keys of users 1 and 2, the second the key of user 2.
  The first worker sets the key of user 1; the second then sets the key of user 2, runs
  its step and releases; the first then finds the key of user 2 absent, sets it, runs its
  step and releases. Both end with a successful result, and the step ran twice.
\<close>

theorem both_workers_succeed_counterexample:
  "set (job_lock_keys ex_job_a) \<inter> set (job_lock_keys ex_job_b) = {''tx_lock:user_2''}
   \<and> succeeded (fst (run_schedule ex_registry ex_schedule (start_worker ex_job_a, start_worker ex_job_b, ex_system)))
   \<and> succeeded (fst (snd (run_schedule ex_registry ex_schedule (start_worker ex_job_a, start_worker ex_job_b, ex_system))))
   \<and> world (snd (snd (run_schedule ex_registry ex_schedule (start_worker ex_job_a, start_worker ex_job_b, ex_system))))
       = [''A+'', ''A+'']"
proof -
  have "run_schedule ex_registry ex_schedule (start_worker ex_job_a, start_worker ex_job_b, ex_system)
      = (fst (run_schedule ex_registry ex_schedule (start_worker ex_job_a, start_worker ex_job_b, ex_system)),
         fst (snd (run_schedule ex_registry ex_schedule (start_worker ex_job_a, start_worker ex_job_b, ex_system))),
         snd (snd (run_schedule ex_registry ex_schedule (start_worker ex_job_a, start_worker ex_job_b, ex_system))))"
    by simp
  with ex_overlap[folded ex_schedule_def] show ?thesis
    by (auto simp: ex_job_keys split: prod.splits)
qed



end
